theory Spec2Isabelle
  imports Main "HOL-Library.Word"
begin

unbundle bit_operations_syntax

section \<open>The symbol table of symbol.c\<close>

text \<open>
  The file interns name strings as integer IDs (\<open>rb_intern_str\<close>), maps IDs back to
  their symbol records (\<open>rb_id2str\<close>), pre-registers the parser's operator tokens
  (\<open>Init_PreSymbol\<close>) and decides whether a symbol prints bare or quoted
  (\<open>sym_should_be_escaped\<close>, \<open>rsym_inspect\<close>).

  A name is the list of its code units. The model takes them from \<open>char\<close>, so a
  code unit is below 256; every test the code applies to a code unit from 128 on
  (\<open>isascii\<close>, \<open>isdigit\<close>, the equality tests against ASCII characters) treats all
  of them alike, and the locale-dependent tests are parameters of the model.
  An \<open>ID\<close> is a C \<open>unsigned long\<close> and the counter \<open>last_id\<close> a C \<open>long\<close>, of 64 bits
  each. Both are modelled as integers, and the wrap-around is written out where the code
  computes with them, at the label \<open>new_id\<close>: the counter starts at 1000 and the shift by
  \<open>ID_SCOPE_SHIFT\<close> leaves it 61 bits.
\<close>

type_synonym ID = int

text \<open>
  The record \<open>rb_sym_t\<close>: its field \<open>klass\<close> is the same class pointer in every
  record and is left out; its field \<open>id\<close> is called \<open>sid\<close> here.
\<close>

record rb_sym_t =
  str :: string
  sid :: ID

subsection \<open>What the file takes from the rest of the runtime\<close>

text \<open>
  The string hash, the operator table of the parser, the last parser token, the string
  printer and the behaviour of the C character classes outside ASCII are not defined in
  symbol.c. They are the parameters of the model.
\<close>

record env =
  rb_str_hash :: "string \<Rightarrow> nat"
  rb_op_tbl :: "(ID \<times> string) list"
  tLAST_TOKEN :: ID
  rb_str_inspect :: "string \<Rightarrow> string"
  locale_isalnum :: "char \<Rightarrow> bool"
  locale_isalpha :: "char \<Rightarrow> bool"
  locale_isupper :: "char \<Rightarrow> bool"
  locale_iswupper :: "char \<Rightarrow> bool"
  locale_isprint :: "char \<Rightarrow> bool"

text \<open>
  Modelled from the spec: the scope macros \<open>ID_SCOPE_SHIFT\<close>, \<open>ID_SCOPE_MASK\<close>,
  \<open>ID_LOCAL\<close> ... \<open>ID_JUNK\<close> are declared in a header that is not part of symbol.c.
  The specification (section 3) makes a SymbolID a low-order scope tag under a
  high-order sequence number and lists the tags; the values are those of the Ruby
  parser headers, three tag bits.
\<close>

definition ID_SCOPE_SHIFT :: nat where "ID_SCOPE_SHIFT = 3"
definition ID_SCOPE_MASK :: ID where "ID_SCOPE_MASK = 7"
definition ID_LOCAL :: ID where "ID_LOCAL = 0"
definition ID_INSTANCE :: ID where "ID_INSTANCE = 1"
definition ID_GLOBAL :: ID where "ID_GLOBAL = 3"
definition ID_ATTRSET :: ID where "ID_ATTRSET = 4"
definition ID_CONST :: ID where "ID_CONST = 5"
definition ID_CLASS :: ID where "ID_CLASS = 6"
definition ID_JUNK :: ID where "ID_JUNK = 7"

text \<open>
  Modelled from the spec: the macros \<open>is_notop_id\<close>, \<open>is_local_id\<close>, \<open>is_attrset_id\<close>
  and the function \<open>rb_id_attrset\<close> belong to the parser and are not part of symbol.c.
  An ID up to the last parser token is an operator token and has no scope; above it the
  scope is the tag field. \<open>rb_id_attrset\<close> keeps the sequence bits of its argument and
  puts the attribute-setter tag in the tag field.
\<close>

definition is_notop_id :: "env \<Rightarrow> ID \<Rightarrow> bool" where
  "is_notop_id E i = (i > tLAST_TOKEN E)"

definition is_local_id :: "env \<Rightarrow> ID \<Rightarrow> bool" where
  "is_local_id E i = (is_notop_id E i \<and> i AND ID_SCOPE_MASK = ID_LOCAL)"

definition is_attrset_id :: "env \<Rightarrow> ID \<Rightarrow> bool" where
  "is_attrset_id E i = (is_notop_id E i \<and> i AND ID_SCOPE_MASK = ID_ATTRSET)"

definition rb_id_attrset :: "ID \<Rightarrow> ID" where
  "rb_id_attrset i = (i AND NOT ID_SCOPE_MASK) OR ID_ATTRSET"

subsection \<open>Character classes\<close>

text \<open>
  On ASCII the classes of \<open>ctype.h\<close> are fixed; from 128 on they follow the locale,
  which the environment supplies. \<open>isdigit\<close> and \<open>isascii\<close> do not depend on it.
\<close>

definition isascii :: "char \<Rightarrow> bool" where
  "isascii c = ((of_char c :: nat) < 128)"

definition isdigit :: "char \<Rightarrow> bool" where
  "isdigit c = (48 \<le> (of_char c :: nat) \<and> (of_char c :: nat) \<le> 57)"

definition ascii_upper :: "char \<Rightarrow> bool" where
  "ascii_upper c = (65 \<le> (of_char c :: nat) \<and> (of_char c :: nat) \<le> 90)"

definition ascii_lower :: "char \<Rightarrow> bool" where
  "ascii_lower c = (97 \<le> (of_char c :: nat) \<and> (of_char c :: nat) \<le> 122)"

definition isupper :: "env \<Rightarrow> char \<Rightarrow> bool" where
  "isupper E c = (if isascii c then ascii_upper c else locale_isupper E c)"

definition iswupper :: "env \<Rightarrow> char \<Rightarrow> bool" where
  "iswupper E c = (if isascii c then ascii_upper c else locale_iswupper E c)"

definition isalpha :: "env \<Rightarrow> char \<Rightarrow> bool" where
  "isalpha E c = (if isascii c then ascii_upper c \<or> ascii_lower c else locale_isalpha E c)"

definition isalnum :: "env \<Rightarrow> char \<Rightarrow> bool" where
  "isalnum E c =
     (if isascii c then ascii_upper c \<or> ascii_lower c \<or> isdigit c else locale_isalnum E c)"

definition isprint :: "env \<Rightarrow> char \<Rightarrow> bool" where
  "isprint E c =
     (if isascii c then 32 \<le> (of_char c :: nat) \<and> (of_char c :: nat) \<le> 126
      else locale_isprint E c)"

definition is_identchar :: "env \<Rightarrow> char \<Rightarrow> bool" where
  "is_identchar E c = (isalnum E c \<or> c = CHR ''_'' \<or> \<not> isascii c)"

subsection \<open>The two dictionaries and the counter\<close>

text \<open>
  \<open>sym_id\<close> is keyed by the hash of a name and holds IDs; \<open>id_str\<close> is keyed by ID and
  holds the symbol records. \<open>CFDictionaryGetValue\<close> answers 0 for a key that is absent.
\<close>

record symtab =
  sym_id :: "nat \<Rightarrow> ID option"
  id_str :: "ID \<Rightarrow> rb_sym_t option"
  last_id :: int

definition CFDictionaryGetValue :: "('k \<Rightarrow> ID option) \<Rightarrow> 'k \<Rightarrow> ID" where
  "CFDictionaryGetValue d k = (case d k of None \<Rightarrow> 0 | Some v \<Rightarrow> v)"

definition sym_alloc :: "string \<Rightarrow> ID \<Rightarrow> rb_sym_t" where
  "sym_alloc s i = \<lparr>str = s, sid = i\<rparr>"

definition rb_str_substr :: "string \<Rightarrow> nat \<Rightarrow> nat \<Rightarrow> string" where
  "rb_str_substr s beg len = take len (drop beg s)"

subsection \<open>rb_intern_str\<close>

text \<open>The code from the label \<open>id_register\<close> on: the record is stored under both keys.\<close>

definition id_register :: "env \<Rightarrow> string \<Rightarrow> ID \<Rightarrow> symtab \<Rightarrow> ID \<times> symtab" where
  "id_register E s i st =
     (let sym = sym_alloc s i
      in (i, st\<lparr>sym_id := (sym_id st)(rb_str_hash E s \<mapsto> i),
                id_str := (id_str st)(i \<mapsto> sym)\<rparr>))"

text \<open>
  The label \<open>new_id\<close>: the counter is incremented first, then shifted over the tag.
  \<open>last_id\<close> is a \<open>long\<close> and the ID an \<open>unsigned long\<close>, 64 bits each: \<open>to_long\<close> is the
  value that the incremented counter has in two's complement, and \<open>to_ulong\<close> the value
  of the shifted counter as an \<open>unsigned long\<close>, where the three bits shifted out at the
  top are lost. (C leaves the overflow of a \<open>long\<close> undefined; the model takes what the
  machine computes.)
\<close>

definition to_long :: "int \<Rightarrow> int" where
  "to_long x = (x + 2 ^ 63) mod 2 ^ 64 - 2 ^ 63"

definition to_ulong :: "int \<Rightarrow> int" where
  "to_ulong x = x mod 2 ^ 64"

definition new_id :: "env \<Rightarrow> string \<Rightarrow> ID \<Rightarrow> symtab \<Rightarrow> ID \<times> symtab" where
  "new_id E s i st =
     (let st1 = st\<lparr>last_id := to_long (last_id st + 1)\<rparr>
      in id_register E s (i OR to_ulong (push_bit ID_SCOPE_SHIFT (last_id st1))) st1)"

text \<open>The loop over identifier characters, from \<open>pos\<close> to the first other character.\<close>

function ident_loop :: "env \<Rightarrow> string \<Rightarrow> nat \<Rightarrow> nat" where
  "ident_loop E chars pos =
     (if pos < length chars \<and> is_identchar E (chars ! pos)
      then ident_loop E chars (pos + 1) else pos)"
  by pat_completeness auto
termination
  by (relation "measure (\<lambda>(E, chars, pos). length chars - pos)") auto

text \<open>
  The scan after the \<open>switch\<close>: it is entered only when the character at \<open>pos\<close> is not a
  digit, and whatever is left over turns the tag into \<open>ID_JUNK\<close>.
\<close>

definition scan_ident :: "env \<Rightarrow> string \<Rightarrow> nat \<Rightarrow> ID \<Rightarrow> ID" where
  "scan_ident E chars pos i =
     (let pos1 = (if pos < length chars \<and> \<not> isdigit (chars ! pos)
                  then ident_loop E chars pos else pos)
      in if pos1 < length chars then ID_JUNK else i)"

function rb_intern_str :: "env \<Rightarrow> string \<Rightarrow> symtab \<Rightarrow> ID \<times> symtab" where
  "rb_intern_str E s st =
     (let i0 = CFDictionaryGetValue (sym_id st) (rb_str_hash E s)
      in if i0 \<noteq> 0 then (i0, st)
         else if 0 < length s then
           (let c = s ! 0
            in if c = CHR ''$'' then new_id E s ID_GLOBAL st
               else if c = CHR ''@'' then
                 (if 1 < length s \<and> s ! 1 = CHR ''@''
                  then new_id E s (scan_ident E s 2 ID_CLASS) st
                  else new_id E s (scan_ident E s 1 ID_INSTANCE) st)
               else if 1 < length s \<and> s ! (length s - 1) = CHR ''='' then
                 (case rb_intern_str E (rb_str_substr s 0 (length s - 1)) st of
                    (i1, st1) \<Rightarrow>
                      if \<not> is_attrset_id E i1 then id_register E s (rb_id_attrset i1) st1
                      else new_id E s (scan_ident E s 0 ID_ATTRSET) st1)
               else if iswupper E c then new_id E s (scan_ident E s 0 ID_CONST) st
               else new_id E s (scan_ident E s 0 ID_LOCAL) st)
         else new_id E s (scan_ident E s 0 i0) st)"
  by pat_completeness auto
termination
  by (relation "measure (\<lambda>(E, s, st). length s)") (auto simp: rb_str_substr_def)

subsection \<open>rb_id2str\<close>

text \<open>
  \<open>rb_id2str\<close> answers a record or 0 (here \<open>None\<close>). For an attribute-setter ID that
  has no record it looks for the record of the local ID with the same sequence bits,
  then of the constant one (the \<open>while\<close> loop, \<open>id2str_loop\<close>), interns that name with
  \<open>=\<close> appended and looks the ID up once more.
\<close>

function rb_id2str :: "env \<Rightarrow> ID \<Rightarrow> symtab \<Rightarrow> rb_sym_t option \<times> symtab"
  and id2str_loop :: "env \<Rightarrow> ID \<Rightarrow> ID \<Rightarrow> symtab \<Rightarrow> rb_sym_t option \<times> symtab"
where
  "rb_id2str E i st =
     (case id_str st i of
        Some sy \<Rightarrow> (Some sy, st)
      | None \<Rightarrow>
          if is_attrset_id E i then
            (case id2str_loop E i ((i AND NOT ID_SCOPE_MASK) OR ID_LOCAL) st of
               (None, st1) \<Rightarrow> (None, st1)
             | (Some sy, st1) \<Rightarrow>
                 (case rb_intern_str E (str sy @ ''='') st1 of
                    (i2, st2) \<Rightarrow>
                      (case id_str st2 i of
                         Some sy2 \<Rightarrow> (Some sy2, st2)
                       | None \<Rightarrow> (None, st2))))
          else (None, st))"
| "id2str_loop E i id2 st =
     (case rb_id2str E id2 st of
        (Some sy, st1) \<Rightarrow> (Some sy, st1)
      | (None, st1) \<Rightarrow>
          if \<not> is_local_id E id2 then (None, st1)
          else id2str_loop E i ((i AND NOT ID_SCOPE_MASK) OR ID_CONST) st1)"
  by pat_completeness auto
termination
proof (relation "measure (\<lambda>x. case x of
          Inl (E, i, st) \<Rightarrow> (if is_attrset_id E i then 9 else 0)
        | Inr (E, i, id2, st) \<Rightarrow>
            (if is_attrset_id E id2 then 10 else 0) + (if is_local_id E id2 then 2 else 1))",
       goal_cases)
  case 1
  show ?case by simp
next
  case (2 E i st)
  have "((i AND NOT 7) OR 0) AND (7::int) = 0"
    by (simp add: bit_eq_iff bit_simps)
  then show ?case
    using 2 by (simp add: is_attrset_id_def is_local_id_def ID_SCOPE_MASK_def ID_LOCAL_def
        ID_ATTRSET_def)
next
  case (3 E i id2 st)
  show ?case by simp
next
  case (4 E i id2 st x y)
  have "(i AND NOT 7) AND (7::int) = 0"
    by (simp add: bit_eq_iff bit_simps)
  then have "((i AND NOT 7) OR 5) AND (7::int) = 5"
    by (simp add: bit.conj_disj_distrib2)
  then show ?case
    using 4 by (simp add: is_attrset_id_def is_local_id_def ID_SCOPE_MASK_def ID_LOCAL_def
        ID_ATTRSET_def ID_CONST_def)
qed

subsection \<open>Init_PreSymbol\<close>

text \<open>
  The dictionaries start empty and the counter at 1000; the operator table is registered
  entry by entry up to the entry whose token is 0.
\<close>

fun pre_register :: "env \<Rightarrow> (ID \<times> string) list \<Rightarrow> symtab \<Rightarrow> symtab" where
  "pre_register E [] st = st"
| "pre_register E ((token, name) # rest) st =
     (if token = 0 then st
      else pre_register E rest
             (st\<lparr>sym_id := (sym_id st)(rb_str_hash E name \<mapsto> token),
                 id_str := (id_str st)(token \<mapsto> sym_alloc name token)\<rparr>))"

definition Init_PreSymbol :: "env \<Rightarrow> symtab" where
  "Init_PreSymbol E =
     pre_register E (rb_op_tbl E) \<lparr>sym_id = Map.empty, id_str = Map.empty, last_id = 1000\<rparr>"

subsection \<open>The literal escaper\<close>

text \<open>The \<open>do ... while\<close> loop of \<open>is_special_global_name\<close> over a run of digits.\<close>

function digit_loop :: "string \<Rightarrow> nat \<Rightarrow> nat" where
  "digit_loop ptr pos =
     (let pos1 = pos + 1
      in if pos1 < length ptr \<and> isdigit (ptr ! pos1) then digit_loop ptr pos1 else pos1)"
  by pat_completeness auto
termination
  by (relation "measure (\<lambda>(ptr, pos). length ptr - pos)") auto

definition is_special_global_name :: "env \<Rightarrow> string \<Rightarrow> bool" where
  "is_special_global_name E ptr =
     (let len = length ptr
      in if len \<le> 0 then False
         else let c = ptr ! 0
              in if c \<in> set (''~*$?!@/;,.=:<>&+0'' @ [CHR 0x5C, CHR 0x22, CHR 0x60, CHR 0x27])
                 then 1 = len
                 else if c = CHR ''-''
                 then (if 1 < len \<and> is_identchar E (ptr ! 1) then 2 else 1) = len
                 else if \<not> isdigit c then False
                 else digit_loop ptr 0 = len)"

text \<open>
  The code from the label \<open>id\<close> to the end of the function: an identifier start, the
  identifier characters, for a local name one of \<open>!\<close>, \<open>?\<close>, \<open>=\<close>, and nothing after.
\<close>

definition sym_id_tail :: "env \<Rightarrow> string \<Rightarrow> nat \<Rightarrow> bool \<Rightarrow> bool" where
  "sym_id_tail E chars pos localid =
     (if pos \<ge> length chars
         \<or> (chars ! pos \<noteq> CHR ''_'' \<and> \<not> isalpha E (chars ! pos) \<and> isascii (chars ! pos))
      then True
      else let pos1 = ident_loop E chars pos;
               pos2 = (if localid \<and> pos1 < length chars
                          \<and> (chars ! pos1 = CHR ''!'' \<or> chars ! pos1 = CHR ''?''
                               \<or> chars ! pos1 = CHR ''='')
                       then pos1 + 1 else pos1)
           in pos2 < length chars)"

text \<open>
  \<open>sym_should_be_escaped\<close>: in every branch of the \<open>switch\<close> that ends in \<open>break\<close> the
  answer is whether \<open>pos\<close> stopped before the end of the text.
\<close>

definition sym_should_be_escaped :: "env \<Rightarrow> rb_sym_t \<Rightarrow> bool" where
  "sym_should_be_escaped E sy =
     (let chars = str sy; chars_len = length chars
      in if chars_len = 0 then True
         else if list_ex (\<lambda>c. \<not> isprint E c) chars then True
         else let c = chars ! 0
              in if c = CHR 0x00 then True
                 else if c = CHR ''$'' then
                   (if 1 < chars_len \<and> is_special_global_name E (drop 1 chars) then False
                    else sym_id_tail E chars 1 False)
                 else if c = CHR ''@'' then
                   sym_id_tail E chars (if 1 < chars_len \<and> chars ! 1 = CHR ''@'' then 2 else 1)
                     False
                 else if c = CHR ''<'' then
                   (if 1 < chars_len
                    then (if chars ! 1 = CHR ''<'' then 2
                          else if chars ! 1 = CHR ''=''
                          then (if 2 < chars_len \<and> chars ! 2 = CHR ''>'' then 3 else 2)
                          else 1)
                    else 1) < chars_len
                 else if c = CHR ''>'' then
                   (if 1 < chars_len \<and> (chars ! 1 = CHR ''>'' \<or> chars ! 1 = CHR ''='')
                    then 2 else 1) < chars_len
                 else if c = CHR ''='' then
                   (if 1 = chars_len then True
                    else if chars ! 1 = CHR ''~'' then 2 < chars_len
                    else if chars ! 1 = CHR ''=''
                    then (if 2 < chars_len \<and> chars ! 2 = CHR ''='' then 3 else 2) < chars_len
                    else True)
                 else if c = CHR ''*'' then
                   (if 1 < chars_len \<and> chars ! 1 = CHR ''*'' then 2 else 1) < chars_len
                 else if c = CHR ''+'' \<or> c = CHR ''-'' then
                   (if 1 < chars_len \<and> chars ! 1 = CHR ''@'' then 2 else 1) < chars_len
                 else if c \<in> set (''|^&/%~'' @ [CHR 0x60]) then 1 < chars_len
                 else if c = CHR ''['' then
                   (if 1 < chars_len \<and> chars ! 1 \<noteq> CHR '']'' then True
                    else (if 2 < chars_len \<and> chars ! 2 = CHR ''='' then 3 else 2) < chars_len)
                 else if c = CHR ''!'' then
                   (if 1 = chars_len then False
                    else if chars ! 1 = CHR ''='' \<or> chars ! 1 = CHR ''~'' then 2 < chars_len
                    else True)
                 else sym_id_tail E chars 0 (\<not> isupper E c))"

definition rsym_inspect :: "env \<Rightarrow> rb_sym_t \<Rightarrow> string" where
  "rsym_inspect E sy =
     (if sym_should_be_escaped E sy then '':'' @ rb_str_inspect E (str sy)
      else '':'' @ str sy)"

subsection \<open>Sample environments\<close>

text \<open>
  Two environments on which the theorems below are run. \<open>sample_env\<close> hashes a name to
  its value in base 257, so no two names collide; its operator table holds four
  one-character operators under their character codes, the numbering yacc gives to
  one-character tokens. \<open>colliding_env\<close> differs only in its hash, the length of the
  name, under which names of equal length collide. Every choice here is a sample: the
  theorems that are not about a sample hold for every environment.
\<close>

definition radix_hash :: "string \<Rightarrow> nat" where
  "radix_hash s = foldr (\<lambda>c h. of_char c + 1 + 257 * h) s 0"

definition quote_plain :: "string \<Rightarrow> string" where
  "quote_plain s = [CHR 0x22] @ s @ [CHR 0x22]"

definition sample_env :: env where
  "sample_env =
     \<lparr>rb_str_hash = radix_hash,
      rb_op_tbl = [(43, ''+''), (45, ''-''), (124, ''|''), (126, ''~''), (0, [])],
      tLAST_TOKEN = 400,
      rb_str_inspect = quote_plain,
      locale_isalnum = (\<lambda>c. False),
      locale_isalpha = (\<lambda>c. False),
      locale_isupper = (\<lambda>c. False),
      locale_iswupper = (\<lambda>c. False),
      locale_isprint = (\<lambda>c. False)\<rparr>"

definition colliding_env :: env where
  "colliding_env = sample_env\<lparr>rb_str_hash := length\<rparr>"

subsection \<open>Notions used to state the properties\<close>

text \<open>
  \<open>sym_lookup\<close> is the first step of \<open>rb_intern_str\<close>: the ID found under the hash of
  a name, 0 when there is none. \<open>junk_remainder\<close> says in the specification's words
  when the rest of a name, after its prefix, makes the name junk: the rest begins with a
  digit or holds a character that is not an identifier character.
\<close>

abbreviation sym_lookup :: "env \<Rightarrow> symtab \<Rightarrow> string \<Rightarrow> ID" where
  "sym_lookup E st s \<equiv> CFDictionaryGetValue (sym_id st) (rb_str_hash E s)"

definition junk_remainder :: "env \<Rightarrow> string \<Rightarrow> bool" where
  "junk_remainder E r = (r \<noteq> [] \<and> (isdigit (hd r) \<or> \<not> list_all (is_identchar E) r))"

text \<open>
  The two IDs that the loop of \<open>rb_id2str\<close> tries for an attribute-setter ID: the same
  sequence bits under the local tag and under the constant tag.
\<close>

definition local_variant :: "ID \<Rightarrow> ID" where
  "local_variant i = (i AND NOT ID_SCOPE_MASK) OR ID_LOCAL"

definition const_variant :: "ID \<Rightarrow> ID" where
  "const_variant i = (i AND NOT ID_SCOPE_MASK) OR ID_CONST"

subsection \<open>The table invariant\<close>

text \<open>
  \<open>strip_chain s\<close> lists the names that \<open>rb_intern_str\<close> may look up on the way down
  from \<open>s\<close>: \<open>s\<close> itself and, as long as the name is longer than one character and ends
  in \<open>=\<close>, the name without its last character. \<open>first_dynamic\<close> is the least ID that
  carries a sequence number above the floor of 1000; \<open>dyn_names\<close> are the texts of the
  records from there on.

  \<open>table_ok\<close> describes a table as start-up and interning leave it when no operator
  token is extended by \<open>=\<close>: the operator tokens lie below \<open>first_dynamic\<close>; a hash
  entry holds a non-zero ID, and if the ID is dynamic it leads to a record whose text
  has that hash (\<open>keys_ok\<close>); a dynamic record carries its own ID, a sequence number that
  was handed out, and is found under the hash of its text (\<open>recs_ok\<close>); a dynamic
  attribute-setter record is the record of a base name followed by \<open>=\<close>, with the ID of
  the base under the setter tag (\<open>setters_ok\<close>); and no two dynamic records other than
  setters share a sequence number (\<open>owners_ok\<close>).

  \<open>plain_name\<close> says that no name of the chain of \<open>s\<close> is found under an operator token;
  \<open>grows\<close> that a table has only gained entries, all of them dynamic and for names of
  the chain of \<open>s\<close>. \<open>op_tbl_ok\<close> is what start-up needs of the operator table (tokens
  positive and up to the last token, which lies below \<open>first_dynamic\<close>), and
  \<open>reserved_only\<close> what it leaves. \<open>aliasing_env\<close> is a third sample, whose hash sends
  \<open>b\<close> where it sends \<open>a\<close> and collides nowhere else.
\<close>

function strip_chain :: "string \<Rightarrow> string list" where
  "strip_chain s =
     (if 1 < length s \<and> last s = CHR ''='' then s # strip_chain (butlast s) else [s])"
  by pat_completeness auto
termination
  by (relation "measure length") auto

definition first_dynamic :: ID where
  "first_dynamic = push_bit ID_SCOPE_SHIFT 1001"

definition dyn_names :: "symtab \<Rightarrow> string set" where
  "dyn_names st = {s. \<exists>i sy. id_str st i = Some sy \<and> first_dynamic \<le> i \<and> str sy = s}"

definition keys_ok :: "env \<Rightarrow> symtab \<Rightarrow> bool" where
  "keys_ok E st =
     (\<forall>k i. sym_id st k = Some i \<longrightarrow>
        0 < i \<and> (i \<le> tLAST_TOKEN E
                 \<or> first_dynamic \<le> i
                    \<and> (\<exists>sy. id_str st i = Some sy \<and> rb_str_hash E (str sy) = k)))"

definition recs_ok :: "env \<Rightarrow> symtab \<Rightarrow> bool" where
  "recs_ok E st =
     (\<forall>i sy. id_str st i = Some sy \<longrightarrow>
        0 < i \<and> (i \<le> tLAST_TOKEN E
                 \<or> first_dynamic \<le> i \<and> sid sy = i
                    \<and> i < push_bit ID_SCOPE_SHIFT (last_id st + 1)
                    \<and> sym_id st (rb_str_hash E (str sy)) = Some i))"

definition setters_ok :: "symtab \<Rightarrow> bool" where
  "setters_ok st =
     (\<forall>i sy. id_str st i = Some sy \<and> first_dynamic \<le> i \<and> i AND ID_SCOPE_MASK = ID_ATTRSET \<longrightarrow>
        (\<exists>j b. id_str st j = Some b \<and> j AND ID_SCOPE_MASK \<noteq> ID_ATTRSET \<and> rb_id_attrset j = i
               \<and> str sy = str b @ ''=''))"

definition owners_ok :: "symtab \<Rightarrow> bool" where
  "owners_ok st =
     (\<forall>i j a b. id_str st i = Some a \<and> id_str st j = Some b
        \<and> first_dynamic \<le> i \<and> first_dynamic \<le> j
        \<and> i AND ID_SCOPE_MASK \<noteq> ID_ATTRSET \<and> j AND ID_SCOPE_MASK \<noteq> ID_ATTRSET
        \<and> i AND NOT ID_SCOPE_MASK = j AND NOT ID_SCOPE_MASK \<longrightarrow> i = j)"

definition table_ok :: "env \<Rightarrow> symtab \<Rightarrow> bool" where
  "table_ok E st =
     (tLAST_TOKEN E < first_dynamic \<and> 1000 \<le> last_id st
      \<and> keys_ok E st \<and> recs_ok E st \<and> setters_ok st \<and> owners_ok st)"

definition plain_name :: "env \<Rightarrow> symtab \<Rightarrow> string \<Rightarrow> bool" where
  "plain_name E st s =
     list_all (\<lambda>p. sym_lookup E st p = 0 \<or> tLAST_TOKEN E < sym_lookup E st p) (strip_chain s)"

definition grows :: "env \<Rightarrow> string \<Rightarrow> symtab \<Rightarrow> symtab \<Rightarrow> bool" where
  "grows E s st st' =
     ((\<forall>j sy. id_str st j = Some sy \<longrightarrow> id_str st' j = Some sy)
      \<and> (\<forall>k v. sym_id st k = Some v \<longrightarrow> sym_id st' k = Some v)
      \<and> (\<forall>j sy. id_str st' j = Some sy \<and> id_str st j = None \<longrightarrow>
            first_dynamic \<le> j \<and> str sy \<in> set (strip_chain s))
      \<and> (\<forall>k v. sym_id st' k = Some v \<and> sym_id st k = None \<longrightarrow>
            first_dynamic \<le> v \<and> k \<in> rb_str_hash E ` set (strip_chain s)))"

definition reserved_only :: "env \<Rightarrow> symtab \<Rightarrow> bool" where
  "reserved_only E st =
     ((\<forall>k i. sym_id st k = Some i \<longrightarrow> 0 < i \<and> i \<le> tLAST_TOKEN E)
      \<and> (\<forall>i sy. id_str st i = Some sy \<longrightarrow> 0 < i \<and> i \<le> tLAST_TOKEN E))"

definition op_tbl_ok :: "env \<Rightarrow> bool" where
  "op_tbl_ok E =
     (tLAST_TOKEN E < first_dynamic
      \<and> list_all (\<lambda>(token, name). 0 < token \<and> token \<le> tLAST_TOKEN E)
           (takeWhile (\<lambda>(token, name). token \<noteq> 0) (rb_op_tbl E)))"

text \<open>
  \<open>ops_ok\<close> is the consistency of the entries of the operator tokens: a hash entry that
  holds an ID up to the last token leads to a record that carries this ID and whose text
  has this hash. Start-up leaves the table so when no token occurs twice in the operator
  table (\<open>init_ops_ok\<close>). \<open>op_names\<close> are the texts of the records under these IDs.
\<close>

definition ops_ok :: "env \<Rightarrow> symtab \<Rightarrow> bool" where
  "ops_ok E st =
     (\<forall>k i. sym_id st k = Some i \<and> i \<le> tLAST_TOKEN E \<longrightarrow>
        (\<exists>sy. id_str st i = Some sy \<and> rb_str_hash E (str sy) = k \<and> sid sy = i))"

definition op_names :: "env \<Rightarrow> symtab \<Rightarrow> string set" where
  "op_names E st = {s. \<exists>i sy. id_str st i = Some sy \<and> i \<le> tLAST_TOKEN E \<and> str sy = s}"

text \<open>
  The tag that the \<open>switch\<close> and the scan of \<open>rb_intern_str\<close> give to a new name that
  does not take the way of the setters is \<open>name_tag\<close>: 0 for the empty name, the global
  tag after \<open>$\<close>, and otherwise what the scan leaves of the class, instance, constant
  or local tag. \<open>setter_shape\<close> is the test of the trailing-\<open>=\<close> branch. \<open>tags_ok\<close>
  says that the dynamic records carry the tags that the code gives to their names: a
  name of setter shape is a setter, or it is junk and its prefix is the name of a
  setter; every other name has its \<open>name_tag\<close>.
\<close>

definition setter_shape :: "string \<Rightarrow> bool" where
  "setter_shape s =
     (1 < length s \<and> hd s \<noteq> CHR ''$'' \<and> hd s \<noteq> CHR ''@'' \<and> last s = CHR ''='')"

definition name_tag :: "env \<Rightarrow> string \<Rightarrow> ID" where
  "name_tag E s =
     (if s = [] then 0
      else if hd s = CHR ''$'' then ID_GLOBAL
      else if hd s = CHR ''@'' then
        (if 1 < length s \<and> s ! 1 = CHR ''@'' then scan_ident E s 2 ID_CLASS
         else scan_ident E s 1 ID_INSTANCE)
      else scan_ident E s 0 (if iswupper E (hd s) then ID_CONST else ID_LOCAL))"

definition tags_ok :: "env \<Rightarrow> symtab \<Rightarrow> bool" where
  "tags_ok E st =
     (\<forall>i sy. id_str st i = Some sy \<and> first_dynamic \<le> i \<longrightarrow>
        (if setter_shape (str sy)
         then i AND ID_SCOPE_MASK = ID_ATTRSET
              \<or> (i AND ID_SCOPE_MASK = ID_JUNK
                  \<and> (\<exists>j b. id_str st j = Some b \<and> first_dynamic \<le> j
                        \<and> str b = butlast (str sy) \<and> j AND ID_SCOPE_MASK = ID_ATTRSET))
         else i AND ID_SCOPE_MASK = name_tag E (str sy)))"

definition aliasing_env :: env where
  "aliasing_env =
     sample_env\<lparr>rb_str_hash := (\<lambda>s. if s = ''b'' then radix_hash ''a'' else radix_hash s)\<rparr>"

subsection \<open>Several callers\<close>

text \<open>
  symbol.c takes no lock and the two dictionaries are shared, so another caller of
  \<open>rb_intern_str\<close> can run between the lookup of a caller (the first lines of the
  function, up to \<open>return id\<close>) and the rest of the function, which classifies the name
  and stores the record without looking again. \<open>intern_insert\<close> is that rest, as it runs
  after a lookup that found nothing. A caller is at the start of the function
  (\<open>Start\<close>), past a lookup that found nothing (\<open>Missed\<close>), or has returned an ID
  (\<open>Done\<close>); \<open>caller_step\<close> runs the next part of one caller on the shared table, and
  \<open>run_callers\<close> runs the callers in the order of a schedule, the list of the callers
  whose turn it is. The parts are run in one piece each; the call for the prefix of a
  setter name belongs to the part that makes it. \<open>one_by_one ks\<close> is the schedule in which
  the callers \<open>ks\<close> run one after the other, each both its parts.
\<close>

datatype caller = Start string | Missed string | Done ID

definition intern_insert :: "env \<Rightarrow> string \<Rightarrow> symtab \<Rightarrow> ID \<times> symtab" where
  "intern_insert E s st =
     (if 0 < length s then
        (let c = s ! 0
         in if c = CHR ''$'' then new_id E s ID_GLOBAL st
            else if c = CHR ''@'' then
              (if 1 < length s \<and> s ! 1 = CHR ''@''
               then new_id E s (scan_ident E s 2 ID_CLASS) st
               else new_id E s (scan_ident E s 1 ID_INSTANCE) st)
            else if 1 < length s \<and> s ! (length s - 1) = CHR ''='' then
              (case rb_intern_str E (rb_str_substr s 0 (length s - 1)) st of
                 (i1, st1) \<Rightarrow>
                   if \<not> is_attrset_id E i1 then id_register E s (rb_id_attrset i1) st1
                   else new_id E s (scan_ident E s 0 ID_ATTRSET) st1)
            else if iswupper E c then new_id E s (scan_ident E s 0 ID_CONST) st
            else new_id E s (scan_ident E s 0 ID_LOCAL) st)
      else new_id E s (scan_ident E s 0 0) st)"

fun caller_step :: "env \<Rightarrow> caller \<Rightarrow> symtab \<Rightarrow> caller \<times> symtab" where
  "caller_step E (Start s) st =
     (let i0 = CFDictionaryGetValue (sym_id st) (rb_str_hash E s)
      in if i0 \<noteq> 0 then (Done i0, st) else (Missed s, st))"
| "caller_step E (Missed s) st = (case intern_insert E s st of (i, st1) \<Rightarrow> (Done i, st1))"
| "caller_step E (Done i) st = (Done i, st)"

fun run_callers :: "env \<Rightarrow> nat list \<Rightarrow> caller list \<times> symtab \<Rightarrow> caller list \<times> symtab" where
  "run_callers E [] c = c"
| "run_callers E (k # sched) (cs, st) =
     (if k < length cs
      then (case caller_step E (cs ! k) st of (c1, st1) \<Rightarrow> run_callers E sched (cs[k := c1], st1))
      else run_callers E sched (cs, st))"

definition one_by_one :: "nat list \<Rightarrow> nat list" where
  "one_by_one ks = concat (map (\<lambda>k. [k, k]) ks)"

section \<open>Basic facts\<close>

declare strip_chain.simps [simp del]

declare rb_intern_str.simps [simp del] ident_loop.simps [simp del] digit_loop.simps [simp del]
  rb_id2str.simps [simp del] id2str_loop.simps [simp del]

lemmas ctype_defs = isascii_def isdigit_def ascii_upper_def ascii_lower_def isupper_def
  iswupper_def isalpha_def isalnum_def isprint_def is_identchar_def

lemmas scope_defs = ID_SCOPE_SHIFT_def ID_SCOPE_MASK_def ID_LOCAL_def ID_INSTANCE_def
  ID_GLOBAL_def ID_ATTRSET_def ID_CONST_def ID_CLASS_def ID_JUNK_def

subsection \<open>The tag field and the sequence bits, arithmetically\<close>

lemma shift_and_mask: "push_bit 3 (n::int) AND 7 = 0"
proof -
  have "push_bit 3 n AND mask 3 = take_bit 3 (push_bit 3 n)"
    by (simp only: take_bit_eq_mask)
  also have "\<dots> = 0"
    by (simp add: take_bit_push_bit)
  finally show ?thesis by (simp add: mask_eq_exp_minus_1)
qed

lemma clear_and_mask: "(i AND NOT 7) AND (7::int) = 0"
proof -
  have "(i AND NOT 7) AND (7::int) = i AND (NOT 7 AND 7)"
    by (simp only: and.assoc)
  then show ?thesis by simp
qed

lemma and7_mod: "(i::int) AND 7 = i mod 8"
proof -
  have "i AND mask 3 = take_bit 3 i"
    by (simp only: take_bit_eq_mask)
  then show ?thesis by (simp add: take_bit_eq_mod mask_eq_exp_minus_1)
qed

lemma andnot7_div: "(i::int) AND NOT 7 = 8 * (i div 8)"
proof -
  have "i AND NOT (mask 3) = push_bit 3 (drop_bit 3 i)"
    by (auto simp add: bit_eq_iff bit_simps)
  then show ?thesis by (simp add: mask_eq_exp_minus_1 push_bit_eq_mult drop_bit_eq_div)
qed

lemma or_disjoint: "0 \<le> t \<Longrightarrow> t < 8 \<Longrightarrow> (t::int) OR 8 * n = t + 8 * n"
proof -
  assume "0 \<le> t" "t < 8"
  have "t AND 8 * n = 0"
  proof -
    have "t = t AND 7" using \<open>0 \<le> t\<close> \<open>t < 8\<close> by (simp add: and7_mod)
    then have "t AND 8 * n = (t AND 7) AND push_bit 3 n" by (simp add: push_bit_eq_mult mult.commute)
    also have "\<dots> = t AND (push_bit 3 n AND 7)" by (simp add: ac_simps)
    finally show ?thesis by (simp add: shift_and_mask)
  qed
  then show ?thesis
    by (simp add: disjunctive_add_eq_or)
qed

lemma scope_mod: "i AND ID_SCOPE_MASK = i mod 8"
  unfolding ID_SCOPE_MASK_def by (rule and7_mod)

lemma seqbits_div: "i AND NOT ID_SCOPE_MASK = 8 * (i div 8)"
  unfolding ID_SCOPE_MASK_def by (rule andnot7_div)

lemma shift_mult: "push_bit ID_SCOPE_SHIFT (n::int) = 8 * n"
  by (simp add: ID_SCOPE_SHIFT_def push_bit_eq_mult)

lemma or_tag: "0 \<le> t \<Longrightarrow> t < 8 \<Longrightarrow> 8 * n OR t = 8 * n + (t::int)"
  using or_disjoint [of t n] by (simp add: or.commute add.commute)

lemma new_id_arith:
  "0 \<le> t \<Longrightarrow> t < 8 \<Longrightarrow> t OR push_bit ID_SCOPE_SHIFT n = 8 * n + (t::int)"
  using or_disjoint [of t n] by (simp add: shift_mult)

lemma to_long_id: "- (2 ^ 63) \<le> x \<Longrightarrow> x < 2 ^ 63 \<Longrightarrow> to_long x = x"
  by (simp add: to_long_def)

lemma to_ulong_id: "0 \<le> x \<Longrightarrow> x < 2 ^ 64 \<Longrightarrow> to_ulong x = x"
  by (simp add: to_ulong_def)

lemma to_ulong_shift:
  "to_ulong (push_bit ID_SCOPE_SHIFT n) = push_bit ID_SCOPE_SHIFT (n mod 2 ^ 61)"
proof -
  have "(8 * n) mod (8 * 2 ^ 61) = 8 * (n mod 2 ^ 61)" for n :: int
    by (rule mult_mod_right [symmetric])
  then show ?thesis by (simp add: to_ulong_def shift_mult)
qed

lemma counter_in_range:
  assumes "0 \<le> n" "n + 1 < 2 ^ 61"
  shows "to_long (n + 1) = n + 1"
    and "to_ulong (push_bit ID_SCOPE_SHIFT (n + 1)) = push_bit ID_SCOPE_SHIFT (n + 1)"
proof -
  from assms show "to_long (n + 1) = n + 1"
    by (intro to_long_id) simp_all
  from assms have "(n + 1) mod 2 ^ 61 = n + 1" by simp
  then show "to_ulong (push_bit ID_SCOPE_SHIFT (n + 1)) = push_bit ID_SCOPE_SHIFT (n + 1)"
    by (simp only: to_ulong_shift)
qed

lemma rb_id_attrset_arith: "rb_id_attrset i = 8 * (i div 8) + 4"
  unfolding rb_id_attrset_def seqbits_div ID_ATTRSET_def by (rule or_tag) simp_all

lemma local_variant_arith: "(i AND NOT ID_SCOPE_MASK) OR ID_LOCAL = 8 * (i div 8)"
  unfolding seqbits_div ID_LOCAL_def by simp

lemma const_variant_arith: "(i AND NOT ID_SCOPE_MASK) OR ID_CONST = 8 * (i div 8) + 5"
  unfolding seqbits_div ID_CONST_def by (rule or_tag) simp_all

lemma scope_new:
  "0 \<le> t \<Longrightarrow> t < 8 \<Longrightarrow> (t OR push_bit ID_SCOPE_SHIFT n) AND ID_SCOPE_MASK = (t::int)"
  by (simp add: new_id_arith scope_mod)

lemma scope_attrset: "rb_id_attrset i AND ID_SCOPE_MASK = ID_ATTRSET"
  by (simp add: rb_id_attrset_arith scope_mod ID_ATTRSET_def)

lemma seq_attrset: "rb_id_attrset i AND NOT ID_SCOPE_MASK = i AND NOT ID_SCOPE_MASK"
  by (simp add: rb_id_attrset_arith seqbits_div)

subsection \<open>The identifier scan\<close>

lemma ident_loop_takeWhile:
  "pos \<le> length chars \<Longrightarrow>
   ident_loop E chars pos = pos + length (takeWhile (is_identchar E) (drop pos chars))"
proof (induction E chars pos rule: ident_loop.induct)
  case (1 E chars pos)
  show ?case
  proof (cases "pos < length chars \<and> is_identchar E (chars ! pos)")
    case True
    then have d: "drop pos chars = chars ! pos # drop (Suc pos) chars"
      by (simp add: Cons_nth_drop_Suc)
    from True 1 have "ident_loop E chars (pos + 1)
        = pos + 1 + length (takeWhile (is_identchar E) (drop (pos + 1) chars))"
      by simp
    with True d show ?thesis
      by (subst ident_loop.simps) simp
  next
    case False
    show ?thesis
    proof (cases "pos < length chars")
      case True
      with False have "\<not> is_identchar E (chars ! pos)" by simp
      moreover from True have "drop pos chars = chars ! pos # drop (Suc pos) chars"
        by (simp add: Cons_nth_drop_Suc)
      ultimately show ?thesis using False
        by (subst ident_loop.simps) simp
    next
      case False
      then show ?thesis using 1(2)
        by (subst ident_loop.simps) simp
    qed
  qed
qed

lemma takeWhile_short: "length (takeWhile P xs) < length xs \<longleftrightarrow> \<not> list_all P xs"
  by (induction xs) auto

lemma ident_loop_end:
  assumes "pos \<le> length chars"
  shows "ident_loop E chars pos < length chars
         \<longleftrightarrow> \<not> list_all (is_identchar E) (drop pos chars)"
proof -
  have "ident_loop E chars pos < length chars
        \<longleftrightarrow> length (takeWhile (is_identchar E) (drop pos chars)) < length (drop pos chars)"
    using assms by (simp add: ident_loop_takeWhile less_diff_conv add.commute)
  then show ?thesis
    by (simp only: takeWhile_short)
qed

lemma scan_ident_junk:
  assumes "pos \<le> length chars"
  shows "scan_ident E chars pos i = (if junk_remainder E (drop pos chars) then ID_JUNK else i)"
proof (cases "pos < length chars")
  case True
  then have hd: "hd (drop pos chars) = chars ! pos"
    by (simp add: hd_drop_conv_nth)
  from True have ne: "drop pos chars \<noteq> []" by simp
  show ?thesis
  proof (cases "isdigit (chars ! pos)")
    case d: True
    with True hd ne show ?thesis
      by (simp add: scan_ident_def junk_remainder_def)
  next
    case d: False
    with True hd ne ident_loop_end [OF assms, of E] show ?thesis
      by (simp add: scan_ident_def junk_remainder_def)
  qed
next
  case False
  with assms show ?thesis
    by (simp add: scan_ident_def junk_remainder_def)
qed

subsection \<open>The branches of rb_intern_str\<close>

lemma intern_hit:
  "sym_lookup E st s \<noteq> 0 \<Longrightarrow> rb_intern_str E s st = (sym_lookup E st s, st)"
  by (subst rb_intern_str.simps) (simp add: Let_def)

lemma intern_empty:
  "sym_lookup E st [] = 0 \<Longrightarrow> rb_intern_str E [] st = new_id E [] 0 st"
  by (subst rb_intern_str.simps) (simp add: Let_def scan_ident_def)

lemma intern_global:
  "sym_lookup E st s = 0 \<Longrightarrow> s \<noteq> [] \<Longrightarrow> hd s = CHR ''$'' \<Longrightarrow>
   rb_intern_str E s st = new_id E s ID_GLOBAL st"
  by (subst rb_intern_str.simps) (simp add: Let_def hd_conv_nth)

lemma intern_at:
  "sym_lookup E st s = 0 \<Longrightarrow> s \<noteq> [] \<Longrightarrow> hd s = CHR ''@'' \<Longrightarrow>
   rb_intern_str E s st =
     (if 1 < length s \<and> s ! 1 = CHR ''@'' then new_id E s (scan_ident E s 2 ID_CLASS) st
      else new_id E s (scan_ident E s 1 ID_INSTANCE) st)"
  by (subst rb_intern_str.simps) (simp add: Let_def hd_conv_nth)

lemma intern_attr:
  "sym_lookup E st s = 0 \<Longrightarrow> hd s \<noteq> CHR ''$'' \<Longrightarrow> hd s \<noteq> CHR ''@'' \<Longrightarrow> 1 < length s \<Longrightarrow>
   last s = CHR ''='' \<Longrightarrow>
   rb_intern_str E s st =
     (case rb_intern_str E (butlast s) st of
        (i1, st1) \<Rightarrow>
          if \<not> is_attrset_id E i1 then id_register E s (rb_id_attrset i1) st1
          else new_id E s (scan_ident E s 0 ID_ATTRSET) st1)"
proof -
  assume a: "sym_lookup E st s = 0" "hd s \<noteq> CHR ''$''" "hd s \<noteq> CHR ''@''" "1 < length s"
    "last s = CHR ''=''"
  then have ne: "s \<noteq> []" by auto
  have l: "s ! (length s - 1) = last s"
    using ne by (simp add: last_conv_nth)
  have b: "rb_str_substr s 0 (length s - 1) = butlast s"
    by (simp add: rb_str_substr_def butlast_conv_take)
  show ?thesis
    using a ne l b by (subst rb_intern_str.simps) (simp add: Let_def hd_conv_nth)
qed

lemma intern_plain:
  "sym_lookup E st s = 0 \<Longrightarrow> s \<noteq> [] \<Longrightarrow> hd s \<noteq> CHR ''$'' \<Longrightarrow> hd s \<noteq> CHR ''@'' \<Longrightarrow>
   \<not> (1 < length s \<and> last s = CHR ''='') \<Longrightarrow>
   rb_intern_str E s st =
     new_id E s (scan_ident E s 0 (if iswupper E (hd s) then ID_CONST else ID_LOCAL)) st"
proof -
  assume a: "sym_lookup E st s = 0" "s \<noteq> []" "hd s \<noteq> CHR ''$''" "hd s \<noteq> CHR ''@''"
    and n: "\<not> (1 < length s \<and> last s = CHR ''='')"
  have l: "s ! (length s - Suc 0) = last s"
    using a(2) by (simp add: last_conv_nth)
  from n have c: "(Suc 0 < length s \<and> last s = CHR ''='') = False"
    by simp
  show ?thesis
    using a by (subst rb_intern_str.simps) (simp add: Let_def hd_conv_nth l c)
qed

lemma fst_new_id:
  "fst (new_id E s t st) = t OR push_bit ID_SCOPE_SHIFT (to_long (last_id st + 1) mod 2 ^ 61)"
  by (simp add: new_id_def id_register_def Let_def to_ulong_shift)

lemma fst_new_id_in_range:
  assumes "0 \<le> last_id st" "last_id st + 1 < 2 ^ 61"
  shows "fst (new_id E s t st) = t OR push_bit ID_SCOPE_SHIFT (last_id st + 1)"
  by (simp add: new_id_def id_register_def Let_def counter_in_range [OF assms])

lemma pre_register_last_id: "last_id (pre_register E tbl st) = last_id st"
  by (induction tbl arbitrary: st) auto

lemma init_last_id: "last_id (Init_PreSymbol E) = 1000"
  by (simp add: Init_PreSymbol_def pre_register_last_id)

lemma fst_id_register: "fst (id_register E s i st) = i"
  by (simp add: id_register_def Let_def)

lemma scope_new_id:
  "0 \<le> t \<Longrightarrow> t < 8 \<Longrightarrow> fst (new_id E s t st) AND ID_SCOPE_MASK = t"
  by (simp add: fst_new_id scope_new)

lemma equals_not_identchar: "\<not> is_identchar E (CHR ''='')"
  by (simp add: ctype_defs)

lemma junk_trailing_equals: "s \<noteq> [] \<Longrightarrow> last s = CHR ''='' \<Longrightarrow> junk_remainder E s"
proof -
  assume a: "s \<noteq> []" "last s = CHR ''=''"
  then have "CHR ''='' \<in> set s"
    using last_in_set by metis
  then have "\<not> list_all (is_identchar E) s"
    using equals_not_identchar by (auto simp: list_all_iff)
  with a show ?thesis by (simp add: junk_remainder_def)
qed

lemma scope_new_id_tags:
  "t \<in> {ID_LOCAL, ID_INSTANCE, ID_GLOBAL, ID_ATTRSET, ID_CONST, ID_CLASS, ID_JUNK} \<Longrightarrow>
   fst (new_id E s t st) AND ID_SCOPE_MASK = t"
  by (rule scope_new_id) (auto simp: scope_defs)

lemma intern_attr_derive:
  assumes "sym_lookup E st s = 0" "hd s \<noteq> CHR ''$''" "hd s \<noteq> CHR ''@''" "1 < length s"
    "last s = CHR ''=''" "\<not> is_attrset_id E (fst (rb_intern_str E (butlast s) st))"
  shows "rb_intern_str E s st =
           id_register E s (rb_id_attrset (fst (rb_intern_str E (butlast s) st)))
             (snd (rb_intern_str E (butlast s) st))"
  using assms(6) by (simp add: intern_attr [OF assms(1-5)] case_prod_beta)

lemma intern_attr_junk:
  assumes "sym_lookup E st s = 0" "hd s \<noteq> CHR ''$''" "hd s \<noteq> CHR ''@''" "1 < length s"
    "last s = CHR ''=''" "is_attrset_id E (fst (rb_intern_str E (butlast s) st))"
  shows "rb_intern_str E s st = new_id E s ID_JUNK (snd (rb_intern_str E (butlast s) st))"
proof -
  from assms(4) have ne: "s \<noteq> []" by auto
  have "scan_ident E s 0 ID_ATTRSET
          = (if junk_remainder E (drop 0 s) then ID_JUNK else ID_ATTRSET)"
    by (rule scan_ident_junk) simp
  with ne assms(5) have sc: "scan_ident E s 0 ID_ATTRSET = ID_JUNK"
    by (simp add: junk_trailing_equals)
  show ?thesis
    using assms(6) by (simp add: intern_attr [OF assms(1-5)] case_prod_beta sc)
qed

subsection \<open>The sample environment at start-up\<close>

lemma init_sample:
  "Init_PreSymbol sample_env =
     \<lparr>sym_id = [44 \<mapsto> 43, 46 \<mapsto> 45, 125 \<mapsto> 124, 127 \<mapsto> 126],
      id_str = [43 \<mapsto> \<lparr>str = ''+'', sid = 43\<rparr>, 45 \<mapsto> \<lparr>str = ''-'', sid = 45\<rparr>,
                124 \<mapsto> \<lparr>str = ''|'', sid = 124\<rparr>, 126 \<mapsto> \<lparr>str = ''~'', sid = 126\<rparr>],
      last_id = 1000\<rparr>"
  by (simp add: Init_PreSymbol_def sample_env_def radix_hash_def sym_alloc_def)

lemma sample_hash: "rb_str_hash sample_env = radix_hash"
  by (simp add: sample_env_def)

section \<open>Classification\<close>

text \<open>
  C5, as the code has it. For a name that is not yet in the table: a name that starts with
  \<open>$\<close> is global whatever follows, without a scan; a longer name that ends in \<open>=\<close> and
  starts with neither \<open>$\<close> nor \<open>@\<close> takes the ID of its prefix with the attribute-setter
  tag, without a scan, unless the prefix is itself an attribute setter, and then it is
  junk; for every other name the tag chosen from the prefix is kept exactly when the rest
  does not begin with a digit and holds identifier characters only, and is junk otherwise.
  The empty name gets the tag 0, which is the local one.
\<close>

theorem junk_scan:
  assumes miss: "sym_lookup E st s = 0"
  shows "(s = [] \<longrightarrow> fst (rb_intern_str E s st) AND ID_SCOPE_MASK = ID_LOCAL)
    \<and> (s \<noteq> [] \<and> hd s = CHR ''$'' \<longrightarrow>
          fst (rb_intern_str E s st) AND ID_SCOPE_MASK = ID_GLOBAL)
    \<and> (s \<noteq> [] \<and> hd s = CHR ''@'' \<longrightarrow>
          fst (rb_intern_str E s st) AND ID_SCOPE_MASK =
            (if 1 < length s \<and> s ! 1 = CHR ''@''
             then (if junk_remainder E (drop 2 s) then ID_JUNK else ID_CLASS)
             else (if junk_remainder E (drop 1 s) then ID_JUNK else ID_INSTANCE)))
    \<and> (s \<noteq> [] \<and> hd s \<noteq> CHR ''$'' \<and> hd s \<noteq> CHR ''@'' \<and> \<not> (1 < length s \<and> last s = CHR ''='') \<longrightarrow>
          fst (rb_intern_str E s st) AND ID_SCOPE_MASK =
            (if junk_remainder E s then ID_JUNK
             else if iswupper E (hd s) then ID_CONST else ID_LOCAL))
    \<and> (hd s \<noteq> CHR ''$'' \<and> hd s \<noteq> CHR ''@'' \<and> 1 < length s \<and> last s = CHR ''='' \<longrightarrow>
          (if is_attrset_id E (fst (rb_intern_str E (butlast s) st))
           then fst (rb_intern_str E s st) AND ID_SCOPE_MASK = ID_JUNK
           else fst (rb_intern_str E s st)
                  = rb_id_attrset (fst (rb_intern_str E (butlast s) st))))"
proof (intro conjI impI)
  assume "s = []"
  with miss have "rb_intern_str E s st = new_id E [] 0 st"
    by (simp add: intern_empty)
  then show "fst (rb_intern_str E s st) AND ID_SCOPE_MASK = ID_LOCAL"
    by (simp add: scope_new_id ID_LOCAL_def)
next
  assume "s \<noteq> [] \<and> hd s = CHR ''$''"
  with miss have "rb_intern_str E s st = new_id E s ID_GLOBAL st"
    by (simp add: intern_global)
  then show "fst (rb_intern_str E s st) AND ID_SCOPE_MASK = ID_GLOBAL"
    by (simp add: scope_new_id_tags)
next
  assume a: "s \<noteq> [] \<and> hd s = CHR ''@''"
  show "fst (rb_intern_str E s st) AND ID_SCOPE_MASK =
            (if 1 < length s \<and> s ! 1 = CHR ''@''
             then (if junk_remainder E (drop 2 s) then ID_JUNK else ID_CLASS)
             else (if junk_remainder E (drop 1 s) then ID_JUNK else ID_INSTANCE))"
  proof (cases "1 < length s \<and> s ! 1 = CHR ''@''")
    case True
    then have "2 \<le> length s" by simp
    then have sc: "scan_ident E s 2 ID_CLASS
                 = (if junk_remainder E (drop 2 s) then ID_JUNK else ID_CLASS)"
      by (rule scan_ident_junk)
    from a have eq: "rb_intern_str E s st =
       (if 1 < length s \<and> s ! 1 = CHR ''@'' then new_id E s (scan_ident E s 2 ID_CLASS) st
        else new_id E s (scan_ident E s 1 ID_INSTANCE) st)"
      by (intro intern_at [OF miss]) simp_all
    from True have "(1 < length s \<and> s ! 1 = CHR ''@'') = True" by simp
    with eq have "rb_intern_str E s st = new_id E s (scan_ident E s 2 ID_CLASS) st"
      by (simp only: if_True)
    then have "fst (rb_intern_str E s st) AND ID_SCOPE_MASK
                 = (if junk_remainder E (drop 2 s) then ID_JUNK else ID_CLASS)"
      by (simp only: sc) (rule scope_new_id_tags, simp)
    with True show ?thesis by simp
  next
    case False
    from a have "1 \<le> length s" by (cases s) simp_all
    then have sc: "scan_ident E s 1 ID_INSTANCE
                 = (if junk_remainder E (drop 1 s) then ID_JUNK else ID_INSTANCE)"
      by (rule scan_ident_junk)
    from a have eq: "rb_intern_str E s st =
       (if 1 < length s \<and> s ! 1 = CHR ''@'' then new_id E s (scan_ident E s 2 ID_CLASS) st
        else new_id E s (scan_ident E s 1 ID_INSTANCE) st)"
      by (intro intern_at [OF miss]) simp_all
    from False have "(1 < length s \<and> s ! 1 = CHR ''@'') = False" by simp
    with eq have "rb_intern_str E s st = new_id E s (scan_ident E s 1 ID_INSTANCE) st"
      by (simp only: if_False)
    then have "fst (rb_intern_str E s st) AND ID_SCOPE_MASK
                 = (if junk_remainder E (drop 1 s) then ID_JUNK else ID_INSTANCE)"
      by (simp only: sc) (rule scope_new_id_tags, simp)
    moreover from False have "(1 < length s \<and> s ! 1 = CHR ''@'') = False" by simp
    ultimately show ?thesis by (simp only: if_False)
  qed
next
  assume a: "s \<noteq> [] \<and> hd s \<noteq> CHR ''$'' \<and> hd s \<noteq> CHR ''@''
             \<and> \<not> (1 < length s \<and> last s = CHR ''='')"
  have "scan_ident E s 0 (if iswupper E (hd s) then ID_CONST else ID_LOCAL)
          = (if junk_remainder E (drop 0 s) then ID_JUNK
             else (if iswupper E (hd s) then ID_CONST else ID_LOCAL))"
    by (rule scan_ident_junk) simp
  then have sc: "scan_ident E s 0 (if iswupper E (hd s) then ID_CONST else ID_LOCAL)
          = (if junk_remainder E s then ID_JUNK
             else if iswupper E (hd s) then ID_CONST else ID_LOCAL)"
    by simp
  from a have "rb_intern_str E s st =
     new_id E s (scan_ident E s 0 (if iswupper E (hd s) then ID_CONST else ID_LOCAL)) st"
    by (intro intern_plain [OF miss]) simp_all
  then show "fst (rb_intern_str E s st) AND ID_SCOPE_MASK =
            (if junk_remainder E s then ID_JUNK
             else if iswupper E (hd s) then ID_CONST else ID_LOCAL)"
    by (simp only: sc) (rule scope_new_id_tags, simp)
next
  assume a: "hd s \<noteq> CHR ''$'' \<and> hd s \<noteq> CHR ''@'' \<and> 1 < length s \<and> last s = CHR ''=''"
  then have ne: "s \<noteq> []" by auto
  obtain i1 st1 where r: "rb_intern_str E (butlast s) st = (i1, st1)"
    by (cases "rb_intern_str E (butlast s) st")
  have "scan_ident E s 0 ID_ATTRSET
          = (if junk_remainder E (drop 0 s) then ID_JUNK else ID_ATTRSET)"
    by (rule scan_ident_junk) simp
  with ne a have sc: "scan_ident E s 0 ID_ATTRSET = ID_JUNK"
    by (simp add: junk_trailing_equals)
  from miss a have "rb_intern_str E s st =
      (if \<not> is_attrset_id E i1 then id_register E s (rb_id_attrset i1) st1
       else new_id E s (scan_ident E s 0 ID_ATTRSET) st1)"
    by (simp add: intern_attr r)
  then have "rb_intern_str E s st =
      (if \<not> is_attrset_id E i1 then id_register E s (rb_id_attrset i1) st1
       else new_id E s ID_JUNK st1)"
    by (simp only: sc)
  then show "if is_attrset_id E (fst (rb_intern_str E (butlast s) st))
           then fst (rb_intern_str E s st) AND ID_SCOPE_MASK = ID_JUNK
           else fst (rb_intern_str E s st)
                  = rb_id_attrset (fst (rb_intern_str E (butlast s) st))"
    by (simp add: r fst_id_register scope_new_id_tags)
qed

theorem junk_scan_witness:
  "sym_lookup sample_env (Init_PreSymbol sample_env) ''$ '' = 0
   \<and> fst (rb_intern_str sample_env ''$ '' (Init_PreSymbol sample_env)) AND ID_SCOPE_MASK = ID_GLOBAL
   \<and> sym_lookup sample_env (Init_PreSymbol sample_env) ''@1'' = 0
   \<and> fst (rb_intern_str sample_env ''@1'' (Init_PreSymbol sample_env)) AND ID_SCOPE_MASK = ID_JUNK
   \<and> sym_lookup sample_env (Init_PreSymbol sample_env) ''a b'' = 0
   \<and> fst (rb_intern_str sample_env ''a b'' (Init_PreSymbol sample_env)) AND ID_SCOPE_MASK = ID_JUNK
   \<and> sym_lookup sample_env (Init_PreSymbol sample_env) [] = 0
   \<and> fst (rb_intern_str sample_env [] (Init_PreSymbol sample_env)) AND ID_SCOPE_MASK = ID_LOCAL
   \<and> sym_lookup sample_env (Init_PreSymbol sample_env) ''+='' = 0
   \<and> fst (rb_intern_str sample_env ''+='' (Init_PreSymbol sample_env)) = rb_id_attrset 43"
proof -
  let ?st = "Init_PreSymbol sample_env"
  have m: "sym_lookup sample_env ?st ''$ '' = 0" "sym_lookup sample_env ?st ''@1'' = 0"
    "sym_lookup sample_env ?st ''a b'' = 0" "sym_lookup sample_env ?st [] = 0"
    "sym_lookup sample_env ?st ''+='' = 0"
    by (simp_all add: init_sample sample_hash radix_hash_def CFDictionaryGetValue_def)
  have p: "rb_intern_str sample_env ''+'' ?st = (43, ?st)"
    by (subst intern_hit)
      (simp_all add: init_sample sample_hash radix_hash_def CFDictionaryGetValue_def)
  have na: "\<not> is_attrset_id sample_env 43"
    by (simp add: is_attrset_id_def is_notop_id_def sample_env_def)
  have j: "junk_remainder sample_env ''1''" "junk_remainder sample_env ''a b''"
    by (simp_all add: junk_remainder_def ctype_defs)
  show ?thesis
    using junk_scan [OF m(1)] junk_scan [OF m(2)] junk_scan [OF m(3)] junk_scan [OF m(4)]
      junk_scan [OF m(5)] m j
    by (simp add: p na)
qed

text \<open>
  C5 as the specification states it fails: \<open>$\<close> followed by a blank is global, not junk,
  although the blank is no identifier character, and \<open>1=\<close> is an attribute setter, not
  junk, although it begins with a digit.
\<close>

theorem junk_scan_counterexample:
  "\<not> is_identchar sample_env (CHR '' '')
   \<and> fst (rb_intern_str sample_env ''$ '' (Init_PreSymbol sample_env)) AND ID_SCOPE_MASK = ID_GLOBAL
   \<and> isdigit (CHR ''1'')
   \<and> fst (rb_intern_str sample_env ''1='' (Init_PreSymbol sample_env)) AND ID_SCOPE_MASK = ID_ATTRSET
   \<and> ID_GLOBAL \<noteq> ID_JUNK \<and> ID_ATTRSET \<noteq> ID_JUNK"
proof -
  let ?st = "Init_PreSymbol sample_env"
  have m: "sym_lookup sample_env ?st ''$ '' = 0" "sym_lookup sample_env ?st ''1='' = 0"
    "sym_lookup sample_env ?st ''1'' = 0"
    by (simp_all add: init_sample sample_hash radix_hash_def CFDictionaryGetValue_def)
  have g: "rb_intern_str sample_env ''$ '' ?st = new_id sample_env ''$ '' ID_GLOBAL ?st"
    using m by (subst intern_global) simp_all
  have one: "rb_intern_str sample_env ''1'' ?st = new_id sample_env ''1'' ID_JUNK ?st"
    using m by (subst intern_plain) (simp_all add: scan_ident_def ctype_defs)
  have na: "\<not> is_attrset_id sample_env (fst (new_id sample_env ''1'' ID_JUNK ?st))"
    by (simp add: is_attrset_id_def scope_new_id_tags) (simp add: scope_defs)
  have a: "fst (rb_intern_str sample_env ''1='' ?st)
             = rb_id_attrset (fst (rb_intern_str sample_env ''1'' ?st))"
    using m na by (subst intern_attr_derive) (simp_all add: one fst_id_register)
  show ?thesis
    by (simp add: a scope_attrset g scope_new_id_tags) (simp add: ctype_defs scope_defs)
qed

section \<open>The literal escaper\<close>

lemma not_printable_escaped:
  assumes "c \<in> set s" and "\<not> isprint E c"
  shows "sym_should_be_escaped E \<lparr>str = s, sid = i\<rparr>"
proof -
  from assms have "list_ex (\<lambda>c. \<not> isprint E c) s"
    by (auto simp: list_ex_iff)
  then show ?thesis
    by (simp add: sym_should_be_escaped_def)
qed

lemma bracket_branch:
  assumes "list_all (isprint E) (CHR ''['' # r)"
  shows "sym_should_be_escaped E \<lparr>str = CHR ''['' # r, sid = i\<rparr>
         = (if 1 < length (CHR ''['' # r) \<and> (CHR ''['' # r) ! 1 \<noteq> CHR '']'' then True
            else (if 2 < length (CHR ''['' # r) \<and> (CHR ''['' # r) ! 2 = CHR ''='' then 3 else 2)
                   < length (CHR ''['' # r))"
proof -
  from assms have "\<not> list_ex (\<lambda>c. \<not> isprint E c) (CHR ''['' # r)"
    by (simp add: list_ex_iff list_all_iff)
  then show ?thesis
    by (simp add: sym_should_be_escaped_def)
qed

lemma bracket_led:
  assumes "list_all (isprint E) (CHR ''['' # r)"
  shows "sym_should_be_escaped E \<lparr>str = CHR ''['' # r, sid = i\<rparr>
         \<longleftrightarrow> r \<noteq> [] \<and> r \<noteq> '']'' \<and> r \<noteq> '']=''"
proof -
  have "(if 1 < length (CHR ''['' # r) \<and> (CHR ''['' # r) ! 1 \<noteq> CHR '']'' then True
         else (if 2 < length (CHR ''['' # r) \<and> (CHR ''['' # r) ! 2 = CHR ''='' then 3 else 2)
                < length (CHR ''['' # r))
        \<longleftrightarrow> r \<noteq> [] \<and> r \<noteq> '']'' \<and> r \<noteq> '']=''"
  proof (cases r)
    case Nil
    then show ?thesis by simp
  next
    case (Cons a r1)
    show ?thesis
    proof (cases r1)
      case Nil
      with Cons show ?thesis by simp
    next
      case (Cons b r2)
      with \<open>r = a # r1\<close> show ?thesis
        by (cases r2) auto
    qed
  qed
  then show ?thesis
    by (simp only: bracket_branch [OF assms])
qed

text \<open>
  C6. \<open>foo\<close> and \<open>+\<close> print bare, as \<open>:foo\<close> and \<open>:+\<close>; \<open>foo bar\<close> and the empty
  text print quoted, through the string printer, which for these two texts gives the text
  between double quotes; the empty text and every text that holds a character that is
  not printable are escaped.
\<close>

theorem display_examples:
  assumes "rb_str_inspect E ''foo bar'' = [CHR 0x22] @ ''foo bar'' @ [CHR 0x22]"
    and "rb_str_inspect E [] = [CHR 0x22, CHR 0x22]"
  shows "rsym_inspect E \<lparr>str = ''foo'', sid = i\<rparr> = '':foo''
    \<and> rsym_inspect E \<lparr>str = ''foo bar'', sid = i\<rparr> = '':'' @ [CHR 0x22] @ ''foo bar'' @ [CHR 0x22]
    \<and> rsym_inspect E \<lparr>str = ''+'', sid = i\<rparr> = '':+''
    \<and> rsym_inspect E \<lparr>str = [], sid = i\<rparr> = '':'' @ [CHR 0x22, CHR 0x22]
    \<and> sym_should_be_escaped E \<lparr>str = [], sid = i\<rparr>
    \<and> (\<forall>s c. c \<in> set s \<and> \<not> isprint E c \<longrightarrow> sym_should_be_escaped E \<lparr>str = s, sid = i\<rparr>)"
proof -
  have "rsym_inspect E \<lparr>str = ''foo'', sid = i\<rparr> = '':foo''"
    by (simp add: rsym_inspect_def sym_should_be_escaped_def sym_id_tail_def ctype_defs
        ident_loop.simps)
  moreover
  have "rsym_inspect E \<lparr>str = ''foo bar'', sid = i\<rparr> = '':'' @ [CHR 0x22] @ ''foo bar'' @ [CHR 0x22]"
    using assms(1)
    by (simp add: rsym_inspect_def sym_should_be_escaped_def sym_id_tail_def ctype_defs
        ident_loop.simps)
  moreover
  have "rsym_inspect E \<lparr>str = ''+'', sid = i\<rparr> = '':+''"
    by (simp add: rsym_inspect_def sym_should_be_escaped_def ctype_defs)
  moreover
  have "rsym_inspect E \<lparr>str = [], sid = i\<rparr> = '':'' @ [CHR 0x22, CHR 0x22]"
    using assms(2) by (simp add: rsym_inspect_def sym_should_be_escaped_def)
  moreover
  have "sym_should_be_escaped E \<lparr>str = [], sid = i\<rparr>"
    by (simp add: sym_should_be_escaped_def)
  moreover
  have "\<forall>s c. c \<in> set s \<and> \<not> isprint E c \<longrightarrow> sym_should_be_escaped E \<lparr>str = s, sid = i\<rparr>"
    using not_printable_escaped by blast
  ultimately show ?thesis by (intro conjI)
qed

theorem display_examples_witness:
  "rb_str_inspect sample_env ''foo bar'' = [CHR 0x22] @ ''foo bar'' @ [CHR 0x22]
   \<and> rb_str_inspect sample_env [] = [CHR 0x22, CHR 0x22]
   \<and> rsym_inspect sample_env \<lparr>str = ''foo bar'', sid = 0\<rparr> = '':'' @ [CHR 0x22] @ ''foo bar'' @ [CHR 0x22]
   \<and> CHR 0x0A \<in> set [CHR ''a'', CHR 0x0A] \<and> \<not> isprint sample_env (CHR 0x0A)
   \<and> sym_should_be_escaped sample_env \<lparr>str = [CHR ''a'', CHR 0x0A], sid = 0\<rparr>"
proof -
  have q: "rb_str_inspect sample_env ''foo bar'' = [CHR 0x22] @ ''foo bar'' @ [CHR 0x22]"
    "rb_str_inspect sample_env [] = [CHR 0x22, CHR 0x22]"
    by (simp_all add: sample_env_def quote_plain_def)
  have n: "CHR 0x0A \<in> set [CHR ''a'', CHR 0x0A] \<and> \<not> isprint sample_env (CHR 0x0A)"
    by (simp add: ctype_defs)
  from display_examples [OF q, of 0] q n show ?thesis by blast
qed

text \<open>
  C7. The specification has every text that starts with \<open>[\<close>, the one-character text
  \<open>[\<close> included, escaped unless it is \<open>[]\<close> or \<open>[]=\<close>. The code tests the character
  after \<open>[\<close> only when there is one, so the text \<open>[\<close> alone passes and prints bare
  (\<open>bracket_led\<close> above gives the whole branch).
\<close>

theorem bracket_alone_bare:
  "sym_should_be_escaped E \<lparr>str = ''['', sid = i\<rparr> = False
   \<and> rsym_inspect E \<lparr>str = ''['', sid = i\<rparr> = '':[''"
  by (simp add: rsym_inspect_def sym_should_be_escaped_def ctype_defs)

section \<open>Resolving an ID\<close>

lemma id2str_found: "id_str st i = Some sy \<Longrightarrow> rb_id2str E i st = (Some sy, st)"
  by (subst rb_id2str.simps) simp

lemma id2str_not_attrset:
  "id_str st i = None \<Longrightarrow> \<not> is_attrset_id E i \<Longrightarrow> rb_id2str E i st = (None, st)"
  by (subst rb_id2str.simps) simp

lemma id2str_plain: "\<not> is_attrset_id E i \<Longrightarrow> rb_id2str E i st = (id_str st i, st)"
  by (cases "id_str st i") (simp_all add: id2str_found id2str_not_attrset)

lemma local_variant_not_attrset: "\<not> is_attrset_id E (local_variant i)"
  by (simp add: is_attrset_id_def local_variant_def local_variant_arith scope_mod ID_ATTRSET_def)

lemma const_variant_not_attrset: "\<not> is_attrset_id E (const_variant i)"
  by (simp add: is_attrset_id_def const_variant_def const_variant_arith scope_mod ID_ATTRSET_def)

lemma const_variant_not_local: "\<not> is_local_id E (const_variant i)"
  by (simp add: is_local_id_def const_variant_def const_variant_arith scope_mod ID_LOCAL_def)

lemma loop_const:
  "id2str_loop E i (const_variant i) st = (id_str st (const_variant i), st)"
  by (subst id2str_loop.simps)
    (simp add: id2str_plain const_variant_not_attrset const_variant_not_local
      split: option.split)

lemma loop_local:
  "id2str_loop E i (local_variant i) st =
     (case id_str st (local_variant i) of
        Some sy \<Rightarrow> (Some sy, st)
      | None \<Rightarrow> if is_local_id E (local_variant i) then (id_str st (const_variant i), st)
                else (None, st))"
  by (subst id2str_loop.simps)
    (simp add: id2str_plain local_variant_not_attrset loop_const [unfolded const_variant_def]
      const_variant_def split: option.split)

lemma id2str_derive:
  assumes "is_attrset_id E i" "id_str st i = None"
  shows "rb_id2str E i st =
     (case fst (id2str_loop E i (local_variant i) st) of
        None \<Rightarrow> (None, st)
      | Some sy \<Rightarrow>
          (id_str (snd (rb_intern_str E (str sy @ ''='') st)) i,
           snd (rb_intern_str E (str sy @ ''='') st)))"
proof -
  have s: "snd (id2str_loop E i (local_variant i) st) = st"
    by (simp add: loop_local split: option.split)
  obtain r where r: "id2str_loop E i (local_variant i) st = (r, st)"
    using s by (cases "id2str_loop E i (local_variant i) st") simp
  show ?thesis
    using assms
    by (subst rb_id2str.simps)
      (simp add: r [unfolded local_variant_def] r case_prod_beta split: option.split)
qed


lemma attrset_of_variant:
  assumes "i AND ID_SCOPE_MASK = ID_ATTRSET"
  shows "rb_id_attrset (local_variant i) = i" "rb_id_attrset (const_variant i) = i"
proof -
  from assms have m: "i mod 8 = 4"
    by (simp add: scope_mod ID_ATTRSET_def)
  have "8 * (i div 8) + i mod 8 = i" by simp
  with m have e: "8 * (i div 8) + 4 = i" by simp
  show "rb_id_attrset (local_variant i) = i"
    using e by (simp add: rb_id_attrset_arith local_variant_def local_variant_arith)
  show "rb_id_attrset (const_variant i) = i"
    using e by (simp add: rb_id_attrset_arith const_variant_def const_variant_arith)
qed

lemma id_register_result:
  "id_register E s i st =
     (i, st\<lparr>sym_id := (sym_id st)(rb_str_hash E s \<mapsto> i),
            id_str := (id_str st)(i \<mapsto> \<lparr>str = s, sid = i\<rparr>)\<rparr>)"
  by (simp add: id_register_def sym_alloc_def)

lemma derive_from_base:
  assumes attr: "is_attrset_id E i" and norec: "id_str st i = None"
    and loop: "fst (id2str_loop E i (local_variant i) st) = Some \<lparr>str = b, sid = j\<rparr>"
    and j: "j = local_variant i \<or> j = const_variant i"
    and hit: "sym_lookup E st b = j" "j \<noteq> 0"
    and b: "b \<noteq> []" "hd b \<noteq> CHR ''$''" "hd b \<noteq> CHR ''@''"
    and miss: "sym_lookup E st (b @ ''='') = 0"
  shows "rb_id2str E i st = (Some \<lparr>str = b @ ''='', sid = i\<rparr>, snd (id_register E (b @ ''='') i st))"
proof -
  have ib: "rb_intern_str E b st = (j, st)"
    using hit by (simp add: intern_hit)
  from j have na: "\<not> is_attrset_id E j"
    using local_variant_not_attrset const_variant_not_attrset by auto
  from attr have "i AND ID_SCOPE_MASK = ID_ATTRSET"
    by (simp add: is_attrset_id_def)
  with j have ji: "rb_id_attrset j = i"
    using attrset_of_variant by auto
  have "rb_intern_str E (b @ ''='') st =
          id_register E (b @ ''='') (rb_id_attrset (fst (rb_intern_str E (butlast (b @ ''='')) st)))
            (snd (rb_intern_str E (butlast (b @ ''='')) st))"
    using miss b na by (intro intern_attr_derive) (simp_all add: ib)
  then have e: "rb_intern_str E (b @ ''='') st = id_register E (b @ ''='') i st"
    by (simp add: ib ji)
  show ?thesis
    by (simp add: id2str_derive [OF attr norec] loop e id_register_result)
qed

lemma new_id_result:
  assumes "0 \<le> last_id st" "last_id st + 1 < 2 ^ 61"
  shows "new_id E s t st =
     (t OR push_bit ID_SCOPE_SHIFT (last_id st + 1),
      st\<lparr>last_id := last_id st + 1,
         sym_id := (sym_id st)(rb_str_hash E s \<mapsto> t OR push_bit ID_SCOPE_SHIFT (last_id st + 1)),
         id_str := (id_str st)(t OR push_bit ID_SCOPE_SHIFT (last_id st + 1)
                      \<mapsto> \<lparr>str = s, sid = t OR push_bit ID_SCOPE_SHIFT (last_id st + 1)\<rparr>)\<rparr>)"
  by (simp add: new_id_def id_register_result Let_def counter_in_range [OF assms])

lemma init_colliding:
  "Init_PreSymbol colliding_env =
     \<lparr>sym_id = [1 \<mapsto> 126],
      id_str = [43 \<mapsto> \<lparr>str = ''+'', sid = 43\<rparr>, 45 \<mapsto> \<lparr>str = ''-'', sid = 45\<rparr>,
                124 \<mapsto> \<lparr>str = ''|'', sid = 124\<rparr>, 126 \<mapsto> \<lparr>str = ''~'', sid = 126\<rparr>],
      last_id = 1000\<rparr>"
  by (simp add: Init_PreSymbol_def colliding_env_def sample_env_def sym_alloc_def)

lemma colliding_hash: "rb_str_hash colliding_env = length"
  by (simp add: colliding_env_def)

lemma sample_foo:
  "rb_intern_str sample_env ''foo'' (Init_PreSymbol sample_env) =
     (8008, (Init_PreSymbol sample_env)
              \<lparr>last_id := 1001,
               sym_id := (sym_id (Init_PreSymbol sample_env))(radix_hash ''foo'' \<mapsto> 8008),
               id_str := (id_str (Init_PreSymbol sample_env))
                           (8008 \<mapsto> \<lparr>str = ''foo'', sid = 8008\<rparr>)\<rparr>)"
proof -
  have m: "sym_lookup sample_env (Init_PreSymbol sample_env) ''foo'' = 0"
    by (simp add: init_sample sample_hash radix_hash_def CFDictionaryGetValue_def)
  have il: "ident_loop sample_env ''foo'' 0 = 3"
    by (simp add: ident_loop.simps ctype_defs)
  have "rb_intern_str sample_env ''foo'' (Init_PreSymbol sample_env)
          = new_id sample_env ''foo'' ID_LOCAL (Init_PreSymbol sample_env)"
    using m by (subst intern_plain) (simp_all add: scan_ident_def il ctype_defs)
  then show ?thesis
    by (simp add: new_id_result sample_hash init_last_id) (simp add: init_sample scope_defs)
qed

lemma sample_Foo:
  "rb_intern_str sample_env ''Foo'' (Init_PreSymbol sample_env) =
     (8013, (Init_PreSymbol sample_env)
              \<lparr>last_id := 1001,
               sym_id := (sym_id (Init_PreSymbol sample_env))(radix_hash ''Foo'' \<mapsto> 8013),
               id_str := (id_str (Init_PreSymbol sample_env))
                           (8013 \<mapsto> \<lparr>str = ''Foo'', sid = 8013\<rparr>)\<rparr>)"
proof -
  have m: "sym_lookup sample_env (Init_PreSymbol sample_env) ''Foo'' = 0"
    by (simp add: init_sample sample_hash radix_hash_def CFDictionaryGetValue_def)
  have il: "ident_loop sample_env ''Foo'' 0 = 3"
    by (simp add: ident_loop.simps ctype_defs)
  have "rb_intern_str sample_env ''Foo'' (Init_PreSymbol sample_env)
          = new_id sample_env ''Foo'' ID_CONST (Init_PreSymbol sample_env)"
    using m by (subst intern_plain) (simp_all add: scan_ident_def il ctype_defs)
  then show ?thesis
    by (simp add: new_id_result sample_hash init_last_id) (simp add: init_sample scope_defs)
qed

lemma sample_empty:
  "rb_intern_str sample_env [] (Init_PreSymbol sample_env) =
     (8008, (Init_PreSymbol sample_env)
              \<lparr>last_id := 1001,
               sym_id := (sym_id (Init_PreSymbol sample_env))(0 \<mapsto> 8008),
               id_str := (id_str (Init_PreSymbol sample_env))
                           (8008 \<mapsto> \<lparr>str = [], sid = 8008\<rparr>)\<rparr>)"
proof -
  have m: "sym_lookup sample_env (Init_PreSymbol sample_env) [] = 0"
    by (simp add: init_sample sample_hash radix_hash_def CFDictionaryGetValue_def)
  then have "rb_intern_str sample_env [] (Init_PreSymbol sample_env)
          = new_id sample_env [] 0 (Init_PreSymbol sample_env)"
    by (rule intern_empty)
  then show ?thesis
    by (simp add: new_id_result sample_hash radix_hash_def init_last_id) (simp add: init_sample scope_defs)
qed

lemma colliding_ab_xyz:
  "snd (rb_intern_str colliding_env ''xyz''
          (snd (rb_intern_str colliding_env ''ab'' (Init_PreSymbol colliding_env)))) =
     (Init_PreSymbol colliding_env)
       \<lparr>last_id := 1002,
        sym_id := (sym_id (Init_PreSymbol colliding_env))(2 \<mapsto> 8008, 3 \<mapsto> 8016),
        id_str := (id_str (Init_PreSymbol colliding_env))
                    (8008 \<mapsto> \<lparr>str = ''ab'', sid = 8008\<rparr>, 8016 \<mapsto> \<lparr>str = ''xyz'', sid = 8016\<rparr>)\<rparr>"
proof -
  let ?st0 = "Init_PreSymbol colliding_env"
  have m: "sym_lookup colliding_env ?st0 ''ab'' = 0"
    by (simp add: init_colliding colliding_hash CFDictionaryGetValue_def)
  have il: "ident_loop colliding_env ''ab'' 0 = 2" "ident_loop colliding_env ''xyz'' 0 = 3"
    by (simp_all add: ident_loop.simps ctype_defs)
  have "rb_intern_str colliding_env ''ab'' ?st0 = new_id colliding_env ''ab'' ID_LOCAL ?st0"
    using m by (subst intern_plain) (simp_all add: scan_ident_def il ctype_defs)
  then have ab: "rb_intern_str colliding_env ''ab'' ?st0 =
     (8008, ?st0\<lparr>last_id := 1001, sym_id := (sym_id ?st0)(2 \<mapsto> 8008),
                 id_str := (id_str ?st0)(8008 \<mapsto> \<lparr>str = ''ab'', sid = 8008\<rparr>)\<rparr>)"
    by (simp add: new_id_result colliding_hash init_last_id)
      (simp add: init_colliding scope_defs numeral_2_eq_2)
  let ?st1 = "?st0\<lparr>last_id := 1001, sym_id := (sym_id ?st0)(2 \<mapsto> 8008),
                 id_str := (id_str ?st0)(8008 \<mapsto> \<lparr>str = ''ab'', sid = 8008\<rparr>)\<rparr>"
  have m1: "sym_lookup colliding_env ?st1 ''xyz'' = 0"
    by (simp add: init_colliding colliding_hash CFDictionaryGetValue_def)
  have "rb_intern_str colliding_env ''xyz'' ?st1 = new_id colliding_env ''xyz'' ID_LOCAL ?st1"
    using m1 by (subst intern_plain) (simp_all add: scan_ident_def il ctype_defs)
  then have "rb_intern_str colliding_env ''xyz'' ?st1 =
     (8016, ?st0\<lparr>last_id := 1002, sym_id := (sym_id ?st0)(2 \<mapsto> 8008, 3 \<mapsto> 8016),
        id_str := (id_str ?st0)
                    (8008 \<mapsto> \<lparr>str = ''ab'', sid = 8008\<rparr>, 8016 \<mapsto> \<lparr>str = ''xyz'', sid = 8016\<rparr>)\<rparr>)"
    by (simp add: new_id_result colliding_hash init_last_id)
      (simp add: init_colliding scope_defs numeral_2_eq_2 numeral_3_eq_3)
  then show ?thesis by (simp add: ab)
qed

lemma new_id_as_register:
  "new_id E s t st =
     id_register E s (t OR to_ulong (push_bit ID_SCOPE_SHIFT (to_long (last_id st + 1))))
       (st\<lparr>last_id := to_long (last_id st + 1)\<rparr>)"
  by (simp add: new_id_def Let_def)

lemma intern_miss_form:
  assumes miss: "sym_lookup E st s = 0"
  shows "\<exists>i1 st1. rb_intern_str E s st = id_register E s i1 st1"
proof (cases "s = []")
  case True
  with miss show ?thesis
    using intern_empty new_id_as_register by metis
next
  case ne: False
  show ?thesis
  proof (cases "hd s = CHR ''$''")
    case True
    with miss ne show ?thesis
      using intern_global new_id_as_register by metis
  next
    case nd: False
    show ?thesis
    proof (cases "hd s = CHR ''@''")
      case True
      with miss ne have "rb_intern_str E s st =
          (if 1 < length s \<and> s ! 1 = CHR ''@'' then new_id E s (scan_ident E s 2 ID_CLASS) st
           else new_id E s (scan_ident E s 1 ID_INSTANCE) st)"
        by (intro intern_at)
      then show ?thesis
        using new_id_as_register by (cases "1 < length s \<and> s ! 1 = CHR ''@''") metis+
    next
      case na: False
      show ?thesis
      proof (cases "1 < length s \<and> last s = CHR ''=''")
        case True
        show ?thesis
        proof (cases "is_attrset_id E (fst (rb_intern_str E (butlast s) st))")
          case a: True
          from miss nd na True a show ?thesis
            using intern_attr_junk new_id_as_register by metis
        next
          case a: False
          from miss nd na True a show ?thesis
            using intern_attr_derive by metis
        qed
      next
        case False
        with miss ne nd na show ?thesis
          using intern_plain new_id_as_register by metis
      qed
    qed
  qed
qed

lemma intern_registers:
  assumes miss: "sym_lookup E st s = 0"
  shows "id_str (snd (rb_intern_str E s st)) (fst (rb_intern_str E s st))
           = Some \<lparr>str = s, sid = fst (rb_intern_str E s st)\<rparr>"
proof -
  from intern_miss_form [OF miss] obtain i1 st1
    where "rb_intern_str E s st = id_register E s i1 st1" by blast
  then show ?thesis by (simp add: id_register_result)
qed

lemma hash_collision_exists:
  fixes h :: "string \<Rightarrow> nat"
  assumes "\<forall>s. h s < 2 ^ 64"
  shows "\<exists>s1 s2. s1 \<noteq> s2 \<and> h s1 = h s2"
proof (rule ccontr)
  assume "\<not> (\<exists>s1 s2. s1 \<noteq> s2 \<and> h s1 = h s2)"
  then have "inj h" by (auto simp: inj_def)
  moreover have "range h \<subseteq> {..< 2 ^ 64}" using assms by auto
  then have "finite (range h)" by (rule finite_subset) simp
  ultimately have "finite (UNIV :: string set)" by (rule finite_imageD [rotated])
  then show False using infinite_UNIV_listI by blast
qed

lemma variant_of_attrset:
  "b AND ID_SCOPE_MASK = ID_LOCAL \<Longrightarrow> local_variant (rb_id_attrset b) = b"
  "b AND ID_SCOPE_MASK = ID_CONST \<Longrightarrow> const_variant (rb_id_attrset b) = b"
proof -
  have d: "(8 * (b div 8) + 4) div 8 = b div 8" by simp
  have l: "local_variant (rb_id_attrset b) = 8 * (b div 8)"
    by (simp only: local_variant_def local_variant_arith rb_id_attrset_arith d)
  have c: "const_variant (rb_id_attrset b) = 8 * (b div 8) + 5"
    by (simp only: const_variant_def const_variant_arith rb_id_attrset_arith d)
  have e: "8 * (b div 8) + b mod 8 = b"
    by (rule mult_div_mod_eq)
  show "b AND ID_SCOPE_MASK = ID_LOCAL \<Longrightarrow> local_variant (rb_id_attrset b) = b"
  proof -
    assume "b AND ID_SCOPE_MASK = ID_LOCAL"
    then have "b mod 8 = 0" by (simp add: scope_mod ID_LOCAL_def)
    with e have "8 * (b div 8) = b" by simp
    with l show ?thesis by simp
  qed
  show "b AND ID_SCOPE_MASK = ID_CONST \<Longrightarrow> const_variant (rb_id_attrset b) = b"
  proof -
    assume "b AND ID_SCOPE_MASK = ID_CONST"
    then have "b mod 8 = 5" by (simp add: scope_mod ID_CONST_def)
    with e have "8 * (b div 8) + 5 = b" by simp
    with c show ?thesis by simp
  qed
qed

text \<open>
  C3, as the code has it. For an attribute-setter ID without a record: when there is a
  record neither under the local nor under the constant ID of the same sequence bits,
  \<open>rb_id2str\<close> answers 0 and leaves the table as it is. When the record of a name \<open>b\<close>
  is found there (the constant one is tried only if the local one is absent and the
  local ID lies above the operator tokens), \<open>b\<close> is interned under that ID, is not
  empty and starts with neither \<open>$\<close> nor \<open>@\<close>, and the hash of \<open>b=\<close> is free, then
  \<open>b=\<close> is registered under the queried ID and its record is the answer. The function
  is total: it never fails otherwise than by answering 0.
\<close>

theorem derivation_path:
  assumes attr: "is_attrset_id E i" and norec: "id_str st i = None"
  shows "(id_str st (local_variant i) = None \<and> id_str st (const_variant i) = None
            \<longrightarrow> rb_id2str E i st = (None, st))
       \<and> (\<forall>j b. (j = local_variant i
                  \<or> j = const_variant i \<and> id_str st (local_variant i) = None
                      \<and> is_local_id E (local_variant i))
               \<and> id_str st j = Some \<lparr>str = b, sid = j\<rparr> \<and> sym_lookup E st b = j \<and> j \<noteq> 0
               \<and> b \<noteq> [] \<and> hd b \<noteq> CHR ''$'' \<and> hd b \<noteq> CHR ''@''
               \<and> sym_lookup E st (b @ ''='') = 0
            \<longrightarrow> rb_id2str E i st
                  = (Some \<lparr>str = b @ ''='', sid = i\<rparr>, snd (id_register E (b @ ''='') i st)))"
proof (intro conjI allI impI)
  assume "id_str st (local_variant i) = None \<and> id_str st (const_variant i) = None"
  then have "fst (id2str_loop E i (local_variant i) st) = None"
    by (simp add: loop_local)
  then show "rb_id2str E i st = (None, st)"
    by (simp add: id2str_derive [OF attr norec])
next
  fix j b
  assume a: "(j = local_variant i
                  \<or> j = const_variant i \<and> id_str st (local_variant i) = None
                      \<and> is_local_id E (local_variant i))
               \<and> id_str st j = Some \<lparr>str = b, sid = j\<rparr> \<and> sym_lookup E st b = j \<and> j \<noteq> 0
               \<and> b \<noteq> [] \<and> hd b \<noteq> CHR ''$'' \<and> hd b \<noteq> CHR ''@''
               \<and> sym_lookup E st (b @ ''='') = 0"
  then have "fst (id2str_loop E i (local_variant i) st) = Some \<lparr>str = b, sid = j\<rparr>"
    by (auto simp add: loop_local)
  moreover from a have "j = local_variant i \<or> j = const_variant i" by blast
  ultimately show "rb_id2str E i st
                  = (Some \<lparr>str = b @ ''='', sid = i\<rparr>, snd (id_register E (b @ ''='') i st))"
    using a by (intro derive_from_base [OF attr norec]) blast+
qed


theorem derivation_path_witness:
  "is_attrset_id sample_env 8012
   \<and> id_str (Init_PreSymbol sample_env) 8012 = None
   \<and> id_str (Init_PreSymbol sample_env) (local_variant 8012) = None
   \<and> id_str (Init_PreSymbol sample_env) (const_variant 8012) = None
   \<and> rb_id2str sample_env 8012 (Init_PreSymbol sample_env) = (None, Init_PreSymbol sample_env)
   \<and> id_str (snd (rb_intern_str sample_env ''foo'' (Init_PreSymbol sample_env))) 8012 = None
   \<and> id_str (snd (rb_intern_str sample_env ''foo'' (Init_PreSymbol sample_env)))
        (local_variant 8012) = Some \<lparr>str = ''foo'', sid = local_variant 8012\<rparr>
   \<and> sym_lookup sample_env (snd (rb_intern_str sample_env ''foo'' (Init_PreSymbol sample_env)))
        ''foo'' = local_variant 8012
   \<and> local_variant 8012 \<noteq> 0
   \<and> sym_lookup sample_env (snd (rb_intern_str sample_env ''foo'' (Init_PreSymbol sample_env)))
        ''foo='' = 0
   \<and> fst (rb_id2str sample_env 8012
            (snd (rb_intern_str sample_env ''foo'' (Init_PreSymbol sample_env))))
       = Some \<lparr>str = ''foo='', sid = 8012\<rparr>"
proof -
  let ?st0 = "Init_PreSymbol sample_env"
  let ?st1 = "snd (rb_intern_str sample_env ''foo'' ?st0)"
  have lv: "local_variant 8012 = 8008" "const_variant 8012 = 8013"
    by (simp_all add: local_variant_def local_variant_arith const_variant_def const_variant_arith)
  have at: "is_attrset_id sample_env 8012"
    by (simp add: is_attrset_id_def is_notop_id_def scope_mod ID_ATTRSET_def sample_env_def)
  have n0: "id_str ?st0 8012 = None" "id_str ?st0 (local_variant 8012) = None"
    "id_str ?st0 (const_variant 8012) = None"
    by (simp_all add: lv init_sample)
  have n1: "id_str ?st1 8012 = None"
    "id_str ?st1 (local_variant 8012) = Some \<lparr>str = ''foo'', sid = local_variant 8012\<rparr>"
    by (simp_all add: lv sample_foo) (simp_all add: init_sample)
  have l1: "sym_lookup sample_env ?st1 ''foo'' = local_variant 8012"
    "sym_lookup sample_env ?st1 ''foo='' = 0"
    by (simp_all add: lv sample_foo sample_hash CFDictionaryGetValue_def)
      (simp_all add: init_sample radix_hash_def)
  have nz: "local_variant 8012 \<noteq> 0" by (simp add: lv)
  from derivation_path [OF at n0(1)] n0
  have r0: "rb_id2str sample_env 8012 ?st0 = (None, ?st0)" by blast
  have "rb_id2str sample_env 8012 ?st1
          = (Some \<lparr>str = ''foo'' @ ''='', sid = 8012\<rparr>,
             snd (id_register sample_env (''foo'' @ ''='') 8012 ?st1))"
    by (rule derivation_path [OF at n1(1), THEN conjunct2, rule_format,
          of "local_variant 8012" "''foo''"])
      (simp add: n1 l1 nz)
  then have r1: "fst (rb_id2str sample_env 8012 ?st1) = Some \<lparr>str = ''foo='', sid = 8012\<rparr>"
    by simp
  from at n0 r0 n1 l1 nz r1 show ?thesis by (intro conjI)
qed

text \<open>
  C3 as the specification states it fails in two ways. The empty name is interned with the
  local tag; from its record the derivation interns \<open>=\<close>, which is junk under a new
  sequence number, so the queried ID stays without a record and the answer is 0. And
  where the hash of \<open>b=\<close> is already taken (here by \<open>xyz\<close>, under the length as hash)
  nothing is registered and the answer is 0 as well.
\<close>

theorem derivation_path_counterexample:
  "is_attrset_id sample_env 8012
   \<and> is_local_id sample_env (local_variant 8012)
   \<and> id_str (snd (rb_intern_str sample_env [] (Init_PreSymbol sample_env))) 8012 = None
   \<and> id_str (snd (rb_intern_str sample_env [] (Init_PreSymbol sample_env))) (local_variant 8012)
       = Some \<lparr>str = [], sid = local_variant 8012\<rparr>
   \<and> fst (rb_id2str sample_env 8012 (snd (rb_intern_str sample_env [] (Init_PreSymbol sample_env))))
       = None
   \<and> is_attrset_id colliding_env 8012
   \<and> id_str (snd (rb_intern_str colliding_env ''xyz''
          (snd (rb_intern_str colliding_env ''ab'' (Init_PreSymbol colliding_env))))) 8012 = None
   \<and> id_str (snd (rb_intern_str colliding_env ''xyz''
          (snd (rb_intern_str colliding_env ''ab'' (Init_PreSymbol colliding_env)))))
        (local_variant 8012) = Some \<lparr>str = ''ab'', sid = local_variant 8012\<rparr>
   \<and> fst (rb_id2str colliding_env 8012 (snd (rb_intern_str colliding_env ''xyz''
          (snd (rb_intern_str colliding_env ''ab'' (Init_PreSymbol colliding_env))))))
       = None"
proof -
  let ?st0 = "Init_PreSymbol sample_env"
  let ?st1 = "snd (rb_intern_str sample_env [] ?st0)"
  let ?c2 = "snd (rb_intern_str colliding_env ''xyz''
          (snd (rb_intern_str colliding_env ''ab'' (Init_PreSymbol colliding_env))))"
  have lv: "local_variant 8012 = 8008" "const_variant 8012 = 8013"
    by (simp_all add: local_variant_def local_variant_arith const_variant_def const_variant_arith)
  have at: "is_attrset_id sample_env 8012" "is_attrset_id colliding_env 8012"
    by (simp_all add: is_attrset_id_def is_notop_id_def scope_mod ID_ATTRSET_def sample_env_def
        colliding_env_def)
  have lo: "is_local_id sample_env (local_variant 8012)"
    by (simp add: lv is_local_id_def is_notop_id_def scope_mod ID_LOCAL_def sample_env_def)
  have n1: "id_str ?st1 8012 = None"
    "id_str ?st1 (local_variant 8012) = Some \<lparr>str = [], sid = local_variant 8012\<rparr>"
    by (simp_all add: lv sample_empty) (simp_all add: init_sample)
  have lp1: "fst (id2str_loop sample_env 8012 (local_variant 8012) ?st1)
               = Some \<lparr>str = [], sid = local_variant 8012\<rparr>"
    by (simp add: loop_local n1)
  have m: "sym_lookup sample_env ?st1 ''='' = 0"
    by (simp add: sample_empty sample_hash CFDictionaryGetValue_def)
      (simp add: init_sample radix_hash_def)
  have "rb_intern_str sample_env ''='' ?st1 = new_id sample_env ''='' ID_JUNK ?st1"
    using m by (subst intern_plain) (simp_all add: scan_ident_def ident_loop.simps ctype_defs)
  then have "id_str (snd (rb_intern_str sample_env ([] @ ''='') ?st1)) 8012 = None"
    by (simp add: new_id_result sample_empty init_last_id) (simp add: init_sample scope_defs)
  then have r1: "fst (rb_id2str sample_env 8012 ?st1) = None"
    by (simp add: id2str_derive [OF at(1) n1(1)] lp1)
  have n2: "id_str ?c2 8012 = None"
    "id_str ?c2 (local_variant 8012) = Some \<lparr>str = ''ab'', sid = local_variant 8012\<rparr>"
    by (simp_all add: lv colliding_ab_xyz) (simp_all add: init_colliding)
  have lp2: "fst (id2str_loop colliding_env 8012 (local_variant 8012) ?c2)
               = Some \<lparr>str = ''ab'', sid = local_variant 8012\<rparr>"
    by (simp add: loop_local n2)
  have "sym_lookup colliding_env ?c2 (''ab'' @ ''='') = 8016"
    by (simp add: colliding_ab_xyz colliding_hash CFDictionaryGetValue_def)
  then have "rb_intern_str colliding_env (''ab'' @ ''='') ?c2 = (8016, ?c2)"
    by (simp add: intern_hit)
  then have r2: "fst (rb_id2str colliding_env 8012 ?c2) = None"
    by (simp add: id2str_derive [OF at(2) n2(1)] lp2 n2)
  from at lo n1 r1 n2 r2 show ?thesis by (intro conjI)
qed

text \<open>
  C9. An ID made by the trailing-\<open>=\<close> branch of \<open>rb_intern_str\<close> has the sequence bits of
  the ID of its base name and the attribute-setter tag; putting the local tag, or the
  constant tag, into the tag field gives the base ID back when the base is local, or a
  constant; and so the loop of \<open>rb_id2str\<close>, started from such an ID, finds the record
  of the base name, trying the local ID first and the constant ID only after it.
\<close>

theorem attrset_keeps_sequence_bits:
  assumes miss: "sym_lookup E st s = 0"
    and shape: "hd s \<noteq> CHR ''$''" "hd s \<noteq> CHR ''@''" "1 < length s" "last s = CHR ''=''"
    and base: "\<not> is_attrset_id E (fst (rb_intern_str E (butlast s) st))"
  shows "fst (rb_intern_str E s st) AND NOT ID_SCOPE_MASK
           = fst (rb_intern_str E (butlast s) st) AND NOT ID_SCOPE_MASK
       \<and> fst (rb_intern_str E s st) AND ID_SCOPE_MASK = ID_ATTRSET
       \<and> (fst (rb_intern_str E (butlast s) st) AND ID_SCOPE_MASK = ID_LOCAL \<longrightarrow>
            (fst (rb_intern_str E s st) AND NOT ID_SCOPE_MASK) OR ID_LOCAL
              = fst (rb_intern_str E (butlast s) st))
       \<and> (fst (rb_intern_str E (butlast s) st) AND ID_SCOPE_MASK = ID_CONST \<longrightarrow>
            (fst (rb_intern_str E s st) AND NOT ID_SCOPE_MASK) OR ID_CONST
              = fst (rb_intern_str E (butlast s) st))
       \<and> (\<forall>st1 sy. id_str st1 (fst (rb_intern_str E (butlast s) st)) = Some sy
             \<and> (fst (rb_intern_str E (butlast s) st) AND ID_SCOPE_MASK = ID_LOCAL
                \<or> fst (rb_intern_str E (butlast s) st) AND ID_SCOPE_MASK = ID_CONST
                   \<and> id_str st1 (local_variant (fst (rb_intern_str E s st))) = None
                   \<and> is_local_id E (local_variant (fst (rb_intern_str E s st))))
             \<longrightarrow> id2str_loop E (fst (rb_intern_str E s st))
                    (local_variant (fst (rb_intern_str E s st))) st1 = (Some sy, st1))"
proof -
  let ?b = "fst (rb_intern_str E (butlast s) st)"
  have i: "fst (rb_intern_str E s st) = rb_id_attrset ?b"
    by (simp add: intern_attr_derive [OF miss shape base] fst_id_register)
  have 1: "rb_id_attrset ?b AND NOT ID_SCOPE_MASK = ?b AND NOT ID_SCOPE_MASK"
    by (rule seq_attrset)
  have 2: "rb_id_attrset ?b AND ID_SCOPE_MASK = ID_ATTRSET"
    by (rule scope_attrset)
  have 3: "?b AND ID_SCOPE_MASK = ID_LOCAL \<longrightarrow>
             (rb_id_attrset ?b AND NOT ID_SCOPE_MASK) OR ID_LOCAL = ?b"
    using variant_of_attrset(1) [of ?b] by (simp add: local_variant_def)
  have 4: "?b AND ID_SCOPE_MASK = ID_CONST \<longrightarrow>
             (rb_id_attrset ?b AND NOT ID_SCOPE_MASK) OR ID_CONST = ?b"
    using variant_of_attrset(2) [of ?b] by (simp add: const_variant_def)
  have 5: "\<forall>(st1::symtab) sy. id_str st1 ?b = Some sy
             \<and> (?b AND ID_SCOPE_MASK = ID_LOCAL
                \<or> ?b AND ID_SCOPE_MASK = ID_CONST
                   \<and> id_str st1 (local_variant (rb_id_attrset ?b)) = None
                   \<and> is_local_id E (local_variant (rb_id_attrset ?b)))
             \<longrightarrow> id2str_loop E (rb_id_attrset ?b) (local_variant (rb_id_attrset ?b)) st1
                   = (Some sy, st1)"
  proof (intro allI impI)
    fix st1 :: symtab and sy
    assume a: "id_str st1 ?b = Some sy
             \<and> (?b AND ID_SCOPE_MASK = ID_LOCAL
                \<or> ?b AND ID_SCOPE_MASK = ID_CONST
                   \<and> id_str st1 (local_variant (rb_id_attrset ?b)) = None
                   \<and> is_local_id E (local_variant (rb_id_attrset ?b)))"
    then have sy: "id_str st1 ?b = Some sy" by simp
    from a have "?b AND ID_SCOPE_MASK = ID_LOCAL
                \<or> ?b AND ID_SCOPE_MASK = ID_CONST
                   \<and> id_str st1 (local_variant (rb_id_attrset ?b)) = None
                   \<and> is_local_id E (local_variant (rb_id_attrset ?b))"
      by simp
    then show "id2str_loop E (rb_id_attrset ?b) (local_variant (rb_id_attrset ?b)) st1
                 = (Some sy, st1)"
    proof (elim disjE conjE)
      assume "?b AND ID_SCOPE_MASK = ID_LOCAL"
      then have "local_variant (rb_id_attrset ?b) = ?b" by (rule variant_of_attrset)
      with sy have "id_str st1 (local_variant (rb_id_attrset ?b)) = Some sy" by simp
      then show ?thesis by (simp only: loop_local option.case)
    next
      assume c: "?b AND ID_SCOPE_MASK = ID_CONST"
        "id_str st1 (local_variant (rb_id_attrset ?b)) = None"
        "is_local_id E (local_variant (rb_id_attrset ?b))"
      from c(1) have "const_variant (rb_id_attrset ?b) = ?b" by (rule variant_of_attrset)
      with sy have "id_str st1 (const_variant (rb_id_attrset ?b)) = Some sy" by simp
      with c(2,3) show ?thesis by (simp only: loop_local option.case if_True)
    qed
  qed
  show ?thesis
    unfolding i using 1 2 3 4 5 by (intro conjI)
qed

theorem attrset_keeps_sequence_bits_witness:
  "sym_lookup sample_env (Init_PreSymbol sample_env) ''foo='' = 0
   \<and> \<not> is_attrset_id sample_env (fst (rb_intern_str sample_env ''foo'' (Init_PreSymbol sample_env)))
   \<and> fst (rb_intern_str sample_env ''foo'' (Init_PreSymbol sample_env)) AND ID_SCOPE_MASK = ID_LOCAL
   \<and> fst (rb_intern_str sample_env ''foo='' (Init_PreSymbol sample_env)) AND NOT ID_SCOPE_MASK
       = fst (rb_intern_str sample_env ''foo'' (Init_PreSymbol sample_env)) AND NOT ID_SCOPE_MASK
   \<and> (fst (rb_intern_str sample_env ''foo='' (Init_PreSymbol sample_env)) AND NOT ID_SCOPE_MASK)
        OR ID_LOCAL = 8008
   \<and> id_str (snd (rb_intern_str sample_env ''foo'' (Init_PreSymbol sample_env))) 8008
       = Some \<lparr>str = ''foo'', sid = 8008\<rparr>
   \<and> fst (id2str_loop sample_env
            (fst (rb_intern_str sample_env ''foo='' (Init_PreSymbol sample_env)))
            (local_variant (fst (rb_intern_str sample_env ''foo='' (Init_PreSymbol sample_env))))
            (snd (rb_intern_str sample_env ''foo'' (Init_PreSymbol sample_env))))
       = Some \<lparr>str = ''foo'', sid = 8008\<rparr>
   \<and> sym_lookup sample_env (Init_PreSymbol sample_env) ''Foo='' = 0
   \<and> \<not> is_attrset_id sample_env (fst (rb_intern_str sample_env ''Foo'' (Init_PreSymbol sample_env)))
   \<and> fst (rb_intern_str sample_env ''Foo'' (Init_PreSymbol sample_env)) AND ID_SCOPE_MASK = ID_CONST
   \<and> (fst (rb_intern_str sample_env ''Foo='' (Init_PreSymbol sample_env)) AND NOT ID_SCOPE_MASK)
        OR ID_CONST = 8013
   \<and> id_str (snd (rb_intern_str sample_env ''Foo'' (Init_PreSymbol sample_env))) 8013
       = Some \<lparr>str = ''Foo'', sid = 8013\<rparr>
   \<and> id_str (snd (rb_intern_str sample_env ''Foo'' (Init_PreSymbol sample_env)))
        (local_variant (fst (rb_intern_str sample_env ''Foo='' (Init_PreSymbol sample_env)))) = None
   \<and> is_local_id sample_env
        (local_variant (fst (rb_intern_str sample_env ''Foo='' (Init_PreSymbol sample_env))))
   \<and> fst (id2str_loop sample_env
            (fst (rb_intern_str sample_env ''Foo='' (Init_PreSymbol sample_env)))
            (local_variant (fst (rb_intern_str sample_env ''Foo='' (Init_PreSymbol sample_env))))
            (snd (rb_intern_str sample_env ''Foo'' (Init_PreSymbol sample_env))))
       = Some \<lparr>str = ''Foo'', sid = 8013\<rparr>"
proof -
  let ?st0 = "Init_PreSymbol sample_env"
  have m: "sym_lookup sample_env ?st0 ''foo='' = 0" "sym_lookup sample_env ?st0 ''Foo='' = 0"
    by (simp_all add: init_sample sample_hash radix_hash_def CFDictionaryGetValue_def)
  have f: "fst (rb_intern_str sample_env ''foo'' ?st0) = 8008"
    "fst (rb_intern_str sample_env ''Foo'' ?st0) = 8013"
    by (simp_all add: sample_foo sample_Foo)
  have na': "\<not> is_attrset_id sample_env (fst (rb_intern_str sample_env ''foo'' ?st0))"
    "\<not> is_attrset_id sample_env (fst (rb_intern_str sample_env ''Foo'' ?st0))"
    by (simp_all add: f is_attrset_id_def scope_mod ID_ATTRSET_def)
  then have na: "\<not> is_attrset_id sample_env
                    (fst (rb_intern_str sample_env (butlast ''foo='') ?st0))"
    "\<not> is_attrset_id sample_env (fst (rb_intern_str sample_env (butlast ''Foo='') ?st0))"
    by simp_all
  have lo: "fst (rb_intern_str sample_env ''foo'' ?st0) AND ID_SCOPE_MASK = ID_LOCAL"
    by (simp add: f scope_mod ID_LOCAL_def)
  have co: "fst (rb_intern_str sample_env ''Foo'' ?st0) AND ID_SCOPE_MASK = ID_CONST"
    by (simp add: f scope_mod ID_CONST_def)
  have r: "id_str (snd (rb_intern_str sample_env ''foo'' ?st0)) 8008
             = Some \<lparr>str = ''foo'', sid = 8008\<rparr>"
    by (simp add: sample_foo)
  have rc: "id_str (snd (rb_intern_str sample_env ''Foo'' ?st0)) 8013
             = Some \<lparr>str = ''Foo'', sid = 8013\<rparr>"
    by (simp add: sample_Foo)
  have sh: "hd ''foo='' \<noteq> CHR ''$''" "hd ''foo='' \<noteq> CHR ''@''" "1 < length ''foo=''"
    "last ''foo='' = CHR ''=''"
    by simp_all
  have shc: "hd ''Foo='' \<noteq> CHR ''$''" "hd ''Foo='' \<noteq> CHR ''@''" "1 < length ''Foo=''"
    "last ''Foo='' = CHR ''=''"
    by simp_all
  have bl: "butlast ''foo='' = ''foo''" "butlast ''Foo='' = ''Foo''" by simp_all
  note t = attrset_keeps_sequence_bits [OF m(1) sh na(1), unfolded bl]
  note t1 = t [THEN conjunct1]
  from lo have "(fst (rb_intern_str sample_env ''foo='' ?st0) AND NOT ID_SCOPE_MASK)
        OR ID_LOCAL = fst (rb_intern_str sample_env ''foo'' ?st0)"
    by (rule t [THEN conjunct2, THEN conjunct2, THEN conjunct1, rule_format])
  then have t3: "(fst (rb_intern_str sample_env ''foo='' ?st0) AND NOT ID_SCOPE_MASK)
        OR ID_LOCAL = 8008"
    by (simp only: f)
  from r f have r': "id_str (snd (rb_intern_str sample_env ''foo'' ?st0))
                      (fst (rb_intern_str sample_env ''foo'' ?st0))
                    = Some \<lparr>str = ''foo'', sid = 8008\<rparr>"
    by simp
  have "id2str_loop sample_env (fst (rb_intern_str sample_env ''foo='' ?st0))
            (local_variant (fst (rb_intern_str sample_env ''foo='' ?st0)))
            (snd (rb_intern_str sample_env ''foo'' ?st0))
          = (Some \<lparr>str = ''foo'', sid = 8008\<rparr>, snd (rb_intern_str sample_env ''foo'' ?st0))"
    by (rule t [THEN conjunct2, THEN conjunct2, THEN conjunct2, THEN conjunct2, rule_format])
      (intro conjI disjI1 r' lo)
  then have t5: "fst (id2str_loop sample_env (fst (rb_intern_str sample_env ''foo='' ?st0))
            (local_variant (fst (rb_intern_str sample_env ''foo='' ?st0)))
            (snd (rb_intern_str sample_env ''foo'' ?st0)))
          = Some \<lparr>str = ''foo'', sid = 8008\<rparr>"
    by simp
  note u = attrset_keeps_sequence_bits [OF m(2) shc na(2), unfolded bl]
  from co have "(fst (rb_intern_str sample_env ''Foo='' ?st0) AND NOT ID_SCOPE_MASK)
        OR ID_CONST = fst (rb_intern_str sample_env ''Foo'' ?st0)"
    by (rule u [THEN conjunct2, THEN conjunct2, THEN conjunct2, THEN conjunct1, rule_format])
  then have u4: "(fst (rb_intern_str sample_env ''Foo='' ?st0) AND NOT ID_SCOPE_MASK)
        OR ID_CONST = 8013"
    by (simp only: f)
  have ia: "fst (rb_intern_str sample_env ''Foo='' ?st0) = 8012"
    using intern_attr_derive [OF m(2) shc na(2)]
    by (simp add: f fst_id_register rb_id_attrset_arith)
  have lv: "local_variant 8012 = 8008"
    by (simp add: local_variant_def local_variant_arith)
  have nl: "id_str (snd (rb_intern_str sample_env ''Foo'' ?st0))
        (local_variant (fst (rb_intern_str sample_env ''Foo='' ?st0))) = None"
    by (simp add: ia lv sample_Foo) (simp add: init_sample)
  have "is_local_id sample_env 8008"
    by (simp add: is_local_id_def is_notop_id_def scope_mod ID_LOCAL_def sample_env_def)
  then have il: "is_local_id sample_env
                   (local_variant (fst (rb_intern_str sample_env ''Foo='' ?st0)))"
    by (simp only: ia lv)
  from rc f have rc': "id_str (snd (rb_intern_str sample_env ''Foo'' ?st0))
                      (fst (rb_intern_str sample_env ''Foo'' ?st0))
                    = Some \<lparr>str = ''Foo'', sid = 8013\<rparr>"
    by simp
  have "id2str_loop sample_env (fst (rb_intern_str sample_env ''Foo='' ?st0))
            (local_variant (fst (rb_intern_str sample_env ''Foo='' ?st0)))
            (snd (rb_intern_str sample_env ''Foo'' ?st0))
          = (Some \<lparr>str = ''Foo'', sid = 8013\<rparr>, snd (rb_intern_str sample_env ''Foo'' ?st0))"
    by (rule u [THEN conjunct2, THEN conjunct2, THEN conjunct2, THEN conjunct2, rule_format])
      (intro conjI disjI2 rc' co nl il)
  then have u5: "fst (id2str_loop sample_env (fst (rb_intern_str sample_env ''Foo='' ?st0))
            (local_variant (fst (rb_intern_str sample_env ''Foo='' ?st0)))
            (snd (rb_intern_str sample_env ''Foo'' ?st0)))
          = Some \<lparr>str = ''Foo'', sid = 8013\<rparr>"
    by simp
  from m(1) na'(1) lo t1 t3 r t5 m(2) na'(2) co u4 rc nl il u5 show ?thesis by (intro conjI)
qed

section \<open>Reserved IDs\<close>

text \<open>
  What the trailing-\<open>=\<close> branch does with an operator name, in every environment: if
  \<open>name\<close> is found under an operator token \<open>t\<close> and \<open>name=\<close> is not in the table, then
  \<open>name=\<close> is registered under \<open>rb_id_attrset t\<close>, an ID made of the token and not of
  the counter.
\<close>

lemma operator_setter_general:
  assumes hit: "sym_lookup E st name = t" "t \<noteq> 0" and op: "t \<le> tLAST_TOKEN E"
    and shape: "name \<noteq> []" "hd name \<noteq> CHR ''$''" "hd name \<noteq> CHR ''@''"
    and miss: "sym_lookup E st (name @ ''='') = 0"
  shows "rb_intern_str E (name @ ''='') st = id_register E (name @ ''='') (rb_id_attrset t) st"
    and "last_id (snd (rb_intern_str E (name @ ''='') st)) = last_id st"
proof -
  from hit have b: "rb_intern_str E name st = (t, st)"
    using intern_hit [of st E name] by simp
  from op have na: "\<not> is_attrset_id E t"
    by (simp add: is_attrset_id_def is_notop_id_def)
  have "rb_intern_str E (name @ ''='') st =
          id_register E (name @ ''='')
            (rb_id_attrset (fst (rb_intern_str E (butlast (name @ ''='')) st)))
            (snd (rb_intern_str E (butlast (name @ ''='')) st))"
    using miss shape na by (intro intern_attr_derive) (simp_all add: b)
  then show e: "rb_intern_str E (name @ ''='') st
                  = id_register E (name @ ''='') (rb_id_attrset t) st"
    by (simp add: b)
  show "last_id (snd (rb_intern_str E (name @ ''='') st)) = last_id st"
    by (simp add: e id_register_result)
qed

text \<open>
  C8. The specification keeps the reserved IDs of the operator tokens apart from every ID
  that a later call of \<open>rb_intern_str\<close> returns. The trailing-\<open>=\<close> branch does not: for
  an operator name followed by \<open>=\<close> it takes the token's own ID, replaces the tag field
  and registers the result, without a new sequence number. With \<open>|\<close> and \<open>~\<close> in the
  operator table under their character codes 124 and 126, interning \<open>~=\<close> returns 124,
  the reserved ID of \<open>|\<close>, and replaces the record of \<open>|\<close>; interning \<open>+=\<close> and then
  \<open>-=\<close> returns 44 both times.
\<close>

theorem operator_setter_reserved_id:
  "id_str (Init_PreSymbol sample_env) 124 = Some \<lparr>str = ''|'', sid = 124\<rparr>
   \<and> sym_lookup sample_env (Init_PreSymbol sample_env) ''|'' = 124
   \<and> sym_lookup sample_env (Init_PreSymbol sample_env) ''~='' = 0
   \<and> fst (rb_intern_str sample_env ''~='' (Init_PreSymbol sample_env)) = 124
   \<and> last_id (snd (rb_intern_str sample_env ''~='' (Init_PreSymbol sample_env))) = 1000
   \<and> fst (rb_id2str sample_env 124
            (snd (rb_intern_str sample_env ''~='' (Init_PreSymbol sample_env))))
       = Some \<lparr>str = ''~='', sid = 124\<rparr>
   \<and> fst (rb_intern_str sample_env ''+='' (Init_PreSymbol sample_env)) = 44
   \<and> fst (rb_intern_str sample_env ''-=''
            (snd (rb_intern_str sample_env ''+='' (Init_PreSymbol sample_env)))) = 44"
proof -
  let ?st0 = "Init_PreSymbol sample_env"
  have l: "sym_lookup sample_env ?st0 ''|'' = 124" "sym_lookup sample_env ?st0 ''~'' = 126"
    "sym_lookup sample_env ?st0 ''+'' = 43" "sym_lookup sample_env ?st0 ''~='' = 0"
    "sym_lookup sample_env ?st0 ''+='' = 0"
    by (simp_all add: init_sample sample_hash radix_hash_def CFDictionaryGetValue_def)
  have r: "id_str ?st0 124 = Some \<lparr>str = ''|'', sid = 124\<rparr>"
    by (simp add: init_sample)
  have b: "rb_intern_str sample_env ''~'' ?st0 = (126, ?st0)"
    "rb_intern_str sample_env ''+'' ?st0 = (43, ?st0)"
    by (simp_all add: intern_hit l)
  have na: "\<not> is_attrset_id sample_env 126" "\<not> is_attrset_id sample_env 43"
    "\<not> is_attrset_id sample_env 45"
    by (simp_all add: is_attrset_id_def is_notop_id_def sample_env_def)
  have v: "rb_id_attrset 126 = 124" "rb_id_attrset 43 = 44" "rb_id_attrset 45 = 44"
    by (simp_all add: rb_id_attrset_arith)
  have t: "rb_intern_str sample_env ''~='' ?st0 = id_register sample_env ''~='' 124 ?st0"
    using l na by (subst intern_attr_derive) (simp_all add: b v)
  have p: "rb_intern_str sample_env ''+='' ?st0 = id_register sample_env ''+='' 44 ?st0"
    using l na by (subst intern_attr_derive) (simp_all add: b v)
  let ?st1 = "snd (id_register sample_env ''+='' 44 ?st0)"
  have l1: "sym_lookup sample_env ?st1 ''-='' = 0" "sym_lookup sample_env ?st1 ''-'' = 45"
    by (simp_all add: id_register_result sample_hash CFDictionaryGetValue_def)
      (simp_all add: init_sample radix_hash_def)
  have b1: "rb_intern_str sample_env ''-'' ?st1 = (45, ?st1)"
    by (simp add: intern_hit l1)
  have q: "rb_intern_str sample_env ''-='' ?st1 = id_register sample_env ''-='' 44 ?st1"
    using l1 na by (subst intern_attr_derive) (simp_all add: b1 v)
  have "id_str (snd (id_register sample_env ''~='' 124 ?st0)) 124
          = Some \<lparr>str = ''~='', sid = 124\<rparr>"
    by (simp add: id_register_result)
  then have d: "fst (rb_id2str sample_env 124 (snd (id_register sample_env ''~='' 124 ?st0)))
          = Some \<lparr>str = ''~='', sid = 124\<rparr>"
    by (simp add: id2str_found)
  have li: "last_id (snd (id_register sample_env ''~='' 124 ?st0)) = 1000"
    by (simp add: id_register_result init_sample)
  from r l(1) l(4) d li show ?thesis
    by (simp add: t p q fst_id_register)
qed

section \<open>Interning keeps the table consistent\<close>

lemma first_dynamic_eq: "first_dynamic = 8008"
  by (simp add: first_dynamic_def shift_mult)

lemma register_preserves:
  assumes ok: "table_ok E st"
    and f: "sym_id st' = (sym_id st)(rb_str_hash E s \<mapsto> i)"
      "id_str st' = (id_str st)(i \<mapsto> \<lparr>str = s, sid = i\<rparr>)"
      "last_id st \<le> last_id st'"
    and miss: "sym_id st (rb_str_hash E s) = None"
    and free: "id_str st i = None"
    and dyn: "first_dynamic \<le> i" "i < push_bit ID_SCOPE_SHIFT (last_id st' + 1)"
    and setter: "i AND ID_SCOPE_MASK = ID_ATTRSET \<Longrightarrow>
        \<exists>j b. id_str st j = Some b \<and> j AND ID_SCOPE_MASK \<noteq> ID_ATTRSET \<and> rb_id_attrset j = i
               \<and> s = str b @ ''=''"
    and owner: "i AND ID_SCOPE_MASK \<noteq> ID_ATTRSET \<Longrightarrow>
        \<forall>j b. id_str st j = Some b \<and> first_dynamic \<le> j \<and> j AND ID_SCOPE_MASK \<noteq> ID_ATTRSET
              \<longrightarrow> j AND NOT ID_SCOPE_MASK \<noteq> i AND NOT ID_SCOPE_MASK"
  shows "table_ok E st'"
proof -
  from ok have b: "tLAST_TOKEN E < first_dynamic" "1000 \<le> last_id st"
    and k: "keys_ok E st" and r: "recs_ok E st" and s: "setters_ok st" and o: "owners_ok st"
    by (simp_all add: table_ok_def)
  have ipos: "0 < i" using dyn(1) by (simp add: first_dynamic_eq)
  have mono: "push_bit ID_SCOPE_SHIFT (last_id st + 1) \<le> push_bit ID_SCOPE_SHIFT (last_id st' + 1)"
    using f(3) by (simp add: shift_mult)
  have k': "keys_ok E st'"
    unfolding keys_ok_def
  proof (intro allI impI)
    fix k i0 assume a: "sym_id st' k = Some i0"
    show "0 < i0 \<and> (i0 \<le> tLAST_TOKEN E
                 \<or> first_dynamic \<le> i0
                    \<and> (\<exists>sy. id_str st' i0 = Some sy \<and> rb_str_hash E (str sy) = k))"
    proof (cases "k = rb_str_hash E s")
      case True
      with a f(1) have "i0 = i" by simp
      with True ipos dyn(1) f(2) show ?thesis by simp
    next
      case False
      with a f(1) have old: "sym_id st k = Some i0" by simp
      with k have c: "0 < i0 \<and> (i0 \<le> tLAST_TOKEN E
                 \<or> first_dynamic \<le> i0
                    \<and> (\<exists>sy. id_str st i0 = Some sy \<and> rb_str_hash E (str sy) = k))"
        unfolding keys_ok_def by blast
      show ?thesis
      proof (cases "i0 \<le> tLAST_TOKEN E")
        case True
        with c show ?thesis by simp
      next
        case False
        with c obtain sy where sy: "first_dynamic \<le> i0" "id_str st i0 = Some sy"
          "rb_str_hash E (str sy) = k" by blast
        with free have "i0 \<noteq> i" by auto
        with sy f(2) have "id_str st' i0 = Some sy" by simp
        with c sy show ?thesis by blast
      qed
    qed
  qed
  have r': "recs_ok E st'"
    unfolding recs_ok_def
  proof (intro allI impI)
    fix i0 sy assume a: "id_str st' i0 = Some sy"
    show "0 < i0 \<and> (i0 \<le> tLAST_TOKEN E
                 \<or> first_dynamic \<le> i0 \<and> sid sy = i0
                    \<and> i0 < push_bit ID_SCOPE_SHIFT (last_id st' + 1)
                    \<and> sym_id st' (rb_str_hash E (str sy)) = Some i0)"
    proof (cases "i0 = i")
      case True
      with a f(2) have "sy = \<lparr>str = s, sid = i\<rparr>" by simp
      with True ipos dyn f(1) show ?thesis by simp
    next
      case False
      with a f(2) have old: "id_str st i0 = Some sy" by simp
      with r have c: "0 < i0 \<and> (i0 \<le> tLAST_TOKEN E
                 \<or> first_dynamic \<le> i0 \<and> sid sy = i0
                    \<and> i0 < push_bit ID_SCOPE_SHIFT (last_id st + 1)
                    \<and> sym_id st (rb_str_hash E (str sy)) = Some i0)"
        unfolding recs_ok_def by blast
      show ?thesis
      proof (cases "i0 \<le> tLAST_TOKEN E")
        case True
        with c show ?thesis by simp
      next
        case nt: False
        with c have d: "first_dynamic \<le> i0" "sid sy = i0"
          "i0 < push_bit ID_SCOPE_SHIFT (last_id st + 1)"
          "sym_id st (rb_str_hash E (str sy)) = Some i0" by simp_all
        from d(4) miss have "rb_str_hash E (str sy) \<noteq> rb_str_hash E s" by auto
        with d(4) f(1) have "sym_id st' (rb_str_hash E (str sy)) = Some i0" by simp
        moreover from d(3) mono have "i0 < push_bit ID_SCOPE_SHIFT (last_id st' + 1)" by simp
        ultimately show ?thesis using c d by simp
      qed
    qed
  qed
  have s': "setters_ok st'"
    unfolding setters_ok_def
  proof (intro allI impI)
    fix i0 sy
    assume a: "id_str st' i0 = Some sy \<and> first_dynamic \<le> i0
               \<and> i0 AND ID_SCOPE_MASK = ID_ATTRSET"
    have "\<exists>j b. id_str st j = Some b \<and> j AND ID_SCOPE_MASK \<noteq> ID_ATTRSET \<and> rb_id_attrset j = i0
               \<and> str sy = str b @ ''=''"
    proof (cases "i0 = i")
      case True
      with a f(2) have "sy = \<lparr>str = s, sid = i\<rparr>" by simp
      with True a setter show ?thesis by simp
    next
      case False
      with a f(2) have "id_str st i0 = Some sy" by simp
      with a s show ?thesis unfolding setters_ok_def by blast
    qed
    then obtain j b where jb: "id_str st j = Some b" "j AND ID_SCOPE_MASK \<noteq> ID_ATTRSET"
      "rb_id_attrset j = i0" "str sy = str b @ ''=''" by blast
    from jb(1) free have "j \<noteq> i" by auto
    with jb(1) f(2) have "id_str st' j = Some b" by simp
    with jb show "\<exists>j b. id_str st' j = Some b \<and> j AND ID_SCOPE_MASK \<noteq> ID_ATTRSET
               \<and> rb_id_attrset j = i0 \<and> str sy = str b @ ''=''" by blast
  qed
  have o': "owners_ok st'"
    unfolding owners_ok_def
  proof (intro allI impI)
    fix i1 j1 a1 b1
    assume a: "id_str st' i1 = Some a1 \<and> id_str st' j1 = Some b1
        \<and> first_dynamic \<le> i1 \<and> first_dynamic \<le> j1
        \<and> i1 AND ID_SCOPE_MASK \<noteq> ID_ATTRSET \<and> j1 AND ID_SCOPE_MASK \<noteq> ID_ATTRSET
        \<and> i1 AND NOT ID_SCOPE_MASK = j1 AND NOT ID_SCOPE_MASK"
    show "i1 = j1"
    proof (cases "i1 = i")
      case i1: True
      show ?thesis
      proof (cases "j1 = i")
        case True
        with i1 show ?thesis by simp
      next
        case False
        with a f(2) have "id_str st j1 = Some b1" by simp
        with a i1 owner show ?thesis by metis
      qed
    next
      case i1: False
      with a f(2) have oi: "id_str st i1 = Some a1" by simp
      show ?thesis
      proof (cases "j1 = i")
        case True
        with a oi owner show ?thesis by metis
      next
        case False
        with a f(2) have "id_str st j1 = Some b1" by simp
        with a oi o show ?thesis unfolding owners_ok_def by blast
      qed
    qed
  qed
  from b f(3) k' r' s' o' show ?thesis
    by (simp add: table_ok_def)
qed

lemma strip_chain_self: "s \<in> set (strip_chain s)"
  by (subst strip_chain.simps) simp

lemma strip_chain_setter:
  "1 < length s \<Longrightarrow> last s = CHR ''='' \<Longrightarrow> strip_chain s = s # strip_chain (butlast s)"
  by (subst strip_chain.simps) simp

lemma strip_chain_length: "p \<in> set (strip_chain s) \<Longrightarrow> length p \<le> length s"
proof (induction s rule: strip_chain.induct)
  case (1 s)
  show ?case
  proof (cases "1 < length s \<and> last s = CHR ''=''")
    case True
    with 1(2) have "p = s \<or> p \<in> set (strip_chain (butlast s))"
      by (simp add: strip_chain_setter)
    then show ?thesis
    proof
      assume "p = s" then show ?thesis by simp
    next
      assume "p \<in> set (strip_chain (butlast s))"
      with 1(1) True have "length p \<le> length (butlast s)" by simp
      then show ?thesis by simp
    qed
  next
    case False
    then have "strip_chain s = [s]" by (subst strip_chain.simps) auto
    with 1(2) show ?thesis by simp
  qed
qed

lemma grows_refl: "grows E s st st"
  by (auto simp add: grows_def)

lemma grows_trans:
  assumes "grows E b st st1" "grows E s st1 st2" "set (strip_chain b) \<subseteq> set (strip_chain s)"
  shows "grows E s st st2"
  unfolding grows_def
proof (intro conjI)
  show "\<forall>j sy. id_str st j = Some sy \<longrightarrow> id_str st2 j = Some sy"
    using assms(1,2) unfolding grows_def by blast
  show "\<forall>k v. sym_id st k = Some v \<longrightarrow> sym_id st2 k = Some v"
    using assms(1,2) unfolding grows_def by blast
  show "\<forall>j sy. id_str st2 j = Some sy \<and> id_str st j = None \<longrightarrow>
            first_dynamic \<le> j \<and> str sy \<in> set (strip_chain s)"
  proof (intro allI impI)
    fix j sy assume a: "id_str st2 j = Some sy \<and> id_str st j = None"
    show "first_dynamic \<le> j \<and> str sy \<in> set (strip_chain s)"
    proof (cases "id_str st1 j")
      case None
      with a assms(2) show ?thesis unfolding grows_def by blast
    next
      case (Some sy1)
      with assms(2) have "id_str st2 j = Some sy1" unfolding grows_def by blast
      with a have "sy1 = sy" by simp
      with Some a assms(1) have "first_dynamic \<le> j \<and> str sy \<in> set (strip_chain b)"
        unfolding grows_def by blast
      with assms(3) show ?thesis by blast
    qed
  qed
  show "\<forall>k v. sym_id st2 k = Some v \<and> sym_id st k = None \<longrightarrow>
            first_dynamic \<le> v \<and> k \<in> rb_str_hash E ` set (strip_chain s)"
  proof (intro allI impI)
    fix k v assume a: "sym_id st2 k = Some v \<and> sym_id st k = None"
    show "first_dynamic \<le> v \<and> k \<in> rb_str_hash E ` set (strip_chain s)"
    proof (cases "sym_id st1 k")
      case None
      with a assms(2) show ?thesis unfolding grows_def by blast
    next
      case (Some v1)
      with assms(2) have "sym_id st2 k = Some v1" unfolding grows_def by blast
      with a have "v1 = v" by simp
      with Some a assms(1) have "first_dynamic \<le> v \<and> k \<in> rb_str_hash E ` set (strip_chain b)"
        unfolding grows_def by blast
      with assms(3) show ?thesis by blast
    qed
  qed
qed

lemma grows_register:
  assumes f: "sym_id st' = (sym_id st)(rb_str_hash E s \<mapsto> i)"
      "id_str st' = (id_str st)(i \<mapsto> \<lparr>str = s, sid = i\<rparr>)"
    and miss: "sym_id st (rb_str_hash E s) = None"
    and free: "id_str st i = None"
    and dyn: "first_dynamic \<le> i"
  shows "grows E s st st'"
  unfolding grows_def
proof (intro conjI)
  show "\<forall>j sy. id_str st j = Some sy \<longrightarrow> id_str st' j = Some sy"
    using free f(2) by auto
  show "\<forall>k v. sym_id st k = Some v \<longrightarrow> sym_id st' k = Some v"
    using miss f(1) by auto
  show "\<forall>j sy. id_str st' j = Some sy \<and> id_str st j = None \<longrightarrow>
            first_dynamic \<le> j \<and> str sy \<in> set (strip_chain s)"
  proof (intro allI impI)
    fix j sy assume a: "id_str st' j = Some sy \<and> id_str st j = None"
    with f(2) have "j = i \<and> sy = \<lparr>str = s, sid = i\<rparr>"
      by (cases "j = i") auto
    with dyn show "first_dynamic \<le> j \<and> str sy \<in> set (strip_chain s)"
      by (simp add: strip_chain_self)
  qed
  show "\<forall>k v. sym_id st' k = Some v \<and> sym_id st k = None \<longrightarrow>
            first_dynamic \<le> v \<and> k \<in> rb_str_hash E ` set (strip_chain s)"
  proof (intro allI impI)
    fix k v assume a: "sym_id st' k = Some v \<and> sym_id st k = None"
    with f(1) have "k = rb_str_hash E s \<and> v = i"
      by (cases "k = rb_str_hash E s") auto
    with dyn show "first_dynamic \<le> v \<and> k \<in> rb_str_hash E ` set (strip_chain s)"
      by (simp add: strip_chain_self)
  qed
qed

lemma div8_bound: "(j::int) < 8 * L + 8 \<longleftrightarrow> j div 8 \<le> L"
proof -
  have "8 * (j div 8) + j mod 8 = j" by (rule mult_div_mod_eq)
  moreover have "0 \<le> j mod 8" "j mod 8 < 8" by simp_all
  ultimately show ?thesis by linarith
qed

lemma div8_tag: "0 \<le> t \<Longrightarrow> t < 8 \<Longrightarrow> (8 * n + t) div 8 = (n::int)"
  by (simp add: div_pos_pos_trivial)

lemma register_fresh:
  assumes ok: "table_ok E st" and miss: "sym_id st (rb_str_hash E s) = None"
    and t: "0 \<le> t" "t < 8" "t \<noteq> 4"
    and room: "last_id st + 1 < 2 ^ 61"
  shows "table_ok E (snd (new_id E s t st))"
    and "grows E s st (snd (new_id E s t st))"
    and "first_dynamic \<le> fst (new_id E s t st)"
    and "id_str st (fst (new_id E s t st)) = None"
proof -
  let ?L = "last_id st"
  let ?i = "t OR push_bit ID_SCOPE_SHIFT (?L + 1)"
  let ?st' = "snd (new_id E s t st)"
  have i: "?i = 8 * (?L + 1) + t"
    using t by (simp add: new_id_arith)
  from ok have b: "tLAST_TOKEN E < first_dynamic" "1000 \<le> ?L" and r: "recs_ok E st"
    by (simp_all add: table_ok_def)
  from b(2) have pos: "0 \<le> ?L" by simp
  have f: "sym_id ?st' = (sym_id st)(rb_str_hash E s \<mapsto> ?i)"
    "id_str ?st' = (id_str st)(?i \<mapsto> \<lparr>str = s, sid = ?i\<rparr>)"
    "last_id ?st' = ?L + 1"
    by (simp_all add: new_id_result [OF pos room])
  have dyn1: "first_dynamic \<le> ?i"
    using b(2) t by (simp add: i first_dynamic_eq)
  have old: "j < 8 * ?L + 8" if "id_str st j = Some sy" "first_dynamic \<le> j" for j sy
  proof -
    from r that(1) have "0 < j \<and> (j \<le> tLAST_TOKEN E
                 \<or> first_dynamic \<le> j \<and> sid sy = j
                    \<and> j < push_bit ID_SCOPE_SHIFT (?L + 1)
                    \<and> sym_id st (rb_str_hash E (str sy)) = Some j)"
      unfolding recs_ok_def by blast
    with that(2) b(1) show ?thesis by (simp add: shift_mult)
  qed
  have free: "id_str st ?i = None"
  proof (cases "id_str st ?i")
    case None then show ?thesis .
  next
    case (Some sy)
    from old [OF Some dyn1] t show ?thesis by (simp add: i)
  qed
  have tag: "?i AND ID_SCOPE_MASK \<noteq> ID_ATTRSET"
    using t by (simp add: scope_new ID_ATTRSET_def)
  have "(8 * (?L + 1) + t) div 8 = ?L + 1"
    using t by (intro div8_tag)
  then have seq: "?i AND NOT ID_SCOPE_MASK = 8 * (?L + 1)"
    by (simp only: i seqbits_div)
  have own: "\<forall>j b. id_str st j = Some b \<and> first_dynamic \<le> j \<and> j AND ID_SCOPE_MASK \<noteq> ID_ATTRSET
              \<longrightarrow> j AND NOT ID_SCOPE_MASK \<noteq> ?i AND NOT ID_SCOPE_MASK"
  proof (intro allI impI)
    fix j b assume "id_str st j = Some b \<and> first_dynamic \<le> j
                     \<and> j AND ID_SCOPE_MASK \<noteq> ID_ATTRSET"
    then have "j < 8 * ?L + 8" using old by blast
    then have "j div 8 \<le> ?L" by (simp add: div8_bound)
    then have "8 * (j div 8) \<noteq> 8 * (?L + 1)" by simp
    then show "j AND NOT ID_SCOPE_MASK \<noteq> ?i AND NOT ID_SCOPE_MASK"
      unfolding seq seqbits_div [of j] .
  qed
  have le: "?L \<le> last_id ?st'" by (simp add: f)
  have "push_bit ID_SCOPE_SHIFT (last_id ?st' + 1) = 8 * (?L + 1) + 8"
    by (simp add: f(3) shift_mult)
  moreover have "?i < 8 * (?L + 1) + 8"
    using t by (simp add: i)
  ultimately have dyn2: "?i < push_bit ID_SCOPE_SHIFT (last_id ?st' + 1)"
    by simp
  have setter: "\<exists>j b. id_str st j = Some b \<and> j AND ID_SCOPE_MASK \<noteq> ID_ATTRSET
               \<and> rb_id_attrset j = ?i \<and> s = str b @ ''=''"
    if "?i AND ID_SCOPE_MASK = ID_ATTRSET"
    using that tag by simp
  show "table_ok E ?st'"
    by (rule register_preserves [OF ok f(1) f(2) le miss free dyn1 dyn2 setter own])
  show "grows E s st ?st'"
    by (rule grows_register [OF f(1) f(2) miss free dyn1])
  show "first_dynamic \<le> fst (new_id E s t st)"
    using dyn1 by (simp add: fst_new_id_in_range [OF pos room])
  show "id_str st (fst (new_id E s t st)) = None"
    using free by (simp add: fst_new_id_in_range [OF pos room])
qed

lemma register_attr:
  assumes ok: "table_ok E st" and miss: "sym_id st (rb_str_hash E (str b @ ''='')) = None"
    and base: "id_str st j = Some b" "first_dynamic \<le> j" "j AND ID_SCOPE_MASK \<noteq> ID_ATTRSET"
  shows "table_ok E (snd (id_register E (str b @ ''='') (rb_id_attrset j) st))"
    and "grows E (str b @ ''='') st (snd (id_register E (str b @ ''='') (rb_id_attrset j) st))"
    and "first_dynamic \<le> rb_id_attrset j"
    and "id_str st (rb_id_attrset j) = None"
proof -
  let ?s = "str b @ ''=''"
  let ?i = "rb_id_attrset j"
  let ?st' = "snd (id_register E ?s ?i st)"
  from ok have bd: "tLAST_TOKEN E < first_dynamic" "1000 \<le> last_id st"
    and r: "recs_ok E st" and se: "setters_ok st" and ow: "owners_ok st"
    by (simp_all add: table_ok_def)
  have f: "sym_id ?st' = (sym_id st)(rb_str_hash E ?s \<mapsto> ?i)"
    "id_str ?st' = (id_str st)(?i \<mapsto> \<lparr>str = ?s, sid = ?i\<rparr>)"
    "last_id ?st' = last_id st"
    by (simp_all add: id_register_result)
  have j8: "1001 \<le> j div 8"
    using base(2) by (simp add: first_dynamic_eq)
  have dyn1: "first_dynamic \<le> ?i"
    using j8 by (simp add: rb_id_attrset_arith first_dynamic_eq)
  have tag: "?i AND ID_SCOPE_MASK = ID_ATTRSET" by (rule scope_attrset)
  have rec: "sid sy = i0 \<and> i0 < push_bit ID_SCOPE_SHIFT (last_id st + 1)
             \<and> sym_id st (rb_str_hash E (str sy)) = Some i0"
    if "id_str st i0 = Some sy" "first_dynamic \<le> i0" for i0 sy
  proof -
    from r that(1) have "0 < i0 \<and> (i0 \<le> tLAST_TOKEN E
                 \<or> first_dynamic \<le> i0 \<and> sid sy = i0
                    \<and> i0 < push_bit ID_SCOPE_SHIFT (last_id st + 1)
                    \<and> sym_id st (rb_str_hash E (str sy)) = Some i0)"
      unfolding recs_ok_def by blast
    with that(2) bd(1) show ?thesis by simp
  qed
  have free: "id_str st ?i = None"
  proof (cases "id_str st ?i")
    case None then show ?thesis .
  next
    case (Some sy)
    with se dyn1 tag obtain j2 b2 where j2: "id_str st j2 = Some b2"
      "j2 AND ID_SCOPE_MASK \<noteq> ID_ATTRSET" "rb_id_attrset j2 = ?i" "str sy = str b2 @ ''=''"
      unfolding setters_ok_def by blast
    from j2(3) have d: "j2 div 8 = j div 8"
      by (simp add: rb_id_attrset_arith)
    have "8 * (j2 div 8) + j2 mod 8 = j2" by (rule mult_div_mod_eq)
    moreover have "0 \<le> j2 mod 8" by simp
    ultimately have "first_dynamic \<le> j2"
      using j8 d by (simp add: first_dynamic_eq)
    moreover from d have "j2 AND NOT ID_SCOPE_MASK = j AND NOT ID_SCOPE_MASK"
      by (simp add: seqbits_div)
    ultimately have "j2 = j"
      using ow j2(1,2) base unfolding owners_ok_def by blast
    with j2(1,4) base(1) have "str sy = ?s" by simp
    with rec [OF Some dyn1] miss show ?thesis by simp
  qed
  have le: "last_id st \<le> last_id ?st'" by (simp add: f)
  from rec [OF base(1,2)] have "j < 8 * last_id st + 8" by (simp add: shift_mult)
  then have "j div 8 \<le> last_id st" by (simp add: div8_bound)
  then have "?i < 8 * last_id st + 8" by (simp add: rb_id_attrset_arith)
  then have dyn2: "?i < push_bit ID_SCOPE_SHIFT (last_id ?st' + 1)"
    by (simp add: f(3) shift_mult)
  have setter: "\<exists>j1 b1. id_str st j1 = Some b1 \<and> j1 AND ID_SCOPE_MASK \<noteq> ID_ATTRSET
               \<and> rb_id_attrset j1 = ?i \<and> ?s = str b1 @ ''=''"
    if "?i AND ID_SCOPE_MASK = ID_ATTRSET"
    using base by blast
  have own: "\<forall>j1 b1. id_str st j1 = Some b1 \<and> first_dynamic \<le> j1
              \<and> j1 AND ID_SCOPE_MASK \<noteq> ID_ATTRSET
              \<longrightarrow> j1 AND NOT ID_SCOPE_MASK \<noteq> ?i AND NOT ID_SCOPE_MASK"
    if "?i AND ID_SCOPE_MASK \<noteq> ID_ATTRSET"
    using that tag by simp
  show "table_ok E ?st'"
    by (rule register_preserves [OF ok f(1) f(2) le miss free dyn1 dyn2 setter own])
  show "grows E ?s st ?st'"
    by (rule grows_register [OF f(1) f(2) miss free dyn1])
  show "first_dynamic \<le> ?i" by (rule dyn1)
  show "id_str st ?i = None" by (rule free)
qed

lemma scan_ident_tag: "scan_ident E s pos t = ID_JUNK \<or> scan_ident E s pos t = t"
  by (simp add: scan_ident_def Let_def)

lemma intern_miss_cases:
  assumes miss: "sym_lookup E st s = 0"
  shows "(\<exists>t. 0 \<le> t \<and> t < 8 \<and> t \<noteq> 4 \<and> rb_intern_str E s st = new_id E s t st)
       \<or> (1 < length s \<and> last s = CHR ''=''
          \<and> (if is_attrset_id E (fst (rb_intern_str E (butlast s) st))
              then rb_intern_str E s st
                     = new_id E s ID_JUNK (snd (rb_intern_str E (butlast s) st))
              else rb_intern_str E s st
                     = id_register E s (rb_id_attrset (fst (rb_intern_str E (butlast s) st)))
                         (snd (rb_intern_str E (butlast s) st))))"
proof -
  have tags: "\<And>t. t \<in> {ID_LOCAL, ID_INSTANCE, ID_GLOBAL, ID_CONST, ID_CLASS, ID_JUNK}
                \<Longrightarrow> 0 \<le> t \<and> t < 8 \<and> t \<noteq> 4"
    by (auto simp: scope_defs)
  have fresh: "\<exists>t. 0 \<le> t \<and> t < 8 \<and> t \<noteq> 4 \<and> rb_intern_str E s st = new_id E s t st"
    if "rb_intern_str E s st = new_id E s (scan_ident E s pos t0) st"
      "t0 \<in> {ID_LOCAL, ID_INSTANCE, ID_GLOBAL, ID_CONST, ID_CLASS, ID_JUNK}" for pos t0
  proof -
    from scan_ident_tag [of E s pos t0] that(2)
    have "scan_ident E s pos t0 \<in> {ID_LOCAL, ID_INSTANCE, ID_GLOBAL, ID_CONST, ID_CLASS, ID_JUNK}"
      by auto
    then have "0 \<le> scan_ident E s pos t0 \<and> scan_ident E s pos t0 < 8
               \<and> scan_ident E s pos t0 \<noteq> 4"
      by (rule tags)
    with that(1) show ?thesis by blast
  qed
  show ?thesis
  proof (cases "s = []")
    case True
    with miss have "rb_intern_str E s st = new_id E s 0 st"
      by (simp add: intern_empty)
    then show ?thesis by force
  next
    case ne: False
    show ?thesis
    proof (cases "hd s = CHR ''$''")
      case True
      with miss ne have "rb_intern_str E s st = new_id E s ID_GLOBAL st"
        by (simp add: intern_global)
      with tags [of ID_GLOBAL] show ?thesis by blast
    next
      case nd: False
      show ?thesis
      proof (cases "hd s = CHR ''@''")
        case True
        with miss ne have e: "rb_intern_str E s st =
          (if 1 < length s \<and> s ! 1 = CHR ''@'' then new_id E s (scan_ident E s 2 ID_CLASS) st
           else new_id E s (scan_ident E s 1 ID_INSTANCE) st)"
          by (intro intern_at)
        show ?thesis
        proof (cases "1 < length s \<and> s ! 1 = CHR ''@''")
          case True
          with e have "rb_intern_str E s st = new_id E s (scan_ident E s 2 ID_CLASS) st"
            by simp
          then show ?thesis using fresh by blast
        next
          case False
          with e have "rb_intern_str E s st = new_id E s (scan_ident E s 1 ID_INSTANCE) st"
            by auto
          then show ?thesis using fresh by blast
        qed
      next
        case na: False
        show ?thesis
        proof (cases "1 < length s \<and> last s = CHR ''=''")
          case True
          show ?thesis
          proof (cases "is_attrset_id E (fst (rb_intern_str E (butlast s) st))")
            case a: True
            with miss nd na True have "rb_intern_str E s st
                     = new_id E s ID_JUNK (snd (rb_intern_str E (butlast s) st))"
              by (intro intern_attr_junk) simp_all
            with a True show ?thesis by simp
          next
            case a: False
            with miss nd na True have "rb_intern_str E s st
                     = id_register E s (rb_id_attrset (fst (rb_intern_str E (butlast s) st)))
                         (snd (rb_intern_str E (butlast s) st))"
              by (intro intern_attr_derive) simp_all
            with a True show ?thesis by simp
          qed
        next
          case False
          with miss ne nd na have "rb_intern_str E s st =
             new_id E s (scan_ident E s 0 (if iswupper E (hd s) then ID_CONST else ID_LOCAL)) st"
            by (intro intern_plain)
          then show ?thesis using fresh [of 0 "if iswupper E (hd s) then ID_CONST else ID_LOCAL"]
            by simp
        qed
      qed
    qed
  qed
qed

lemma lookup_zero:
  assumes "keys_ok E st"
  shows "sym_lookup E st s = 0 \<longleftrightarrow> sym_id st (rb_str_hash E s) = None"
proof (cases "sym_id st (rb_str_hash E s)")
  case None
  then show ?thesis by (simp add: CFDictionaryGetValue_def)
next
  case (Some i)
  with assms have "0 < i" unfolding keys_ok_def by blast
  with Some show ?thesis by (simp add: CFDictionaryGetValue_def)
qed

lemma plain_name_self:
  "plain_name E st s \<Longrightarrow> sym_lookup E st s = 0 \<or> tLAST_TOKEN E < sym_lookup E st s"
  using strip_chain_self [of s] by (auto simp: plain_name_def list_all_iff)

lemma plain_name_butlast:
  "plain_name E st s \<Longrightarrow> 1 < length s \<Longrightarrow> last s = CHR ''='' \<Longrightarrow> plain_name E st (butlast s)"
  by (simp add: plain_name_def strip_chain_setter)

lemma strip_chain_butlast:
  "1 < length s \<Longrightarrow> last s = CHR ''='' \<Longrightarrow> set (strip_chain (butlast s)) \<subseteq> set (strip_chain s)"
  by (auto simp: strip_chain_setter)

lemma new_id_record:
  "id_str (snd (new_id E s t st)) (fst (new_id E s t st))
     = Some \<lparr>str = s, sid = fst (new_id E s t st)\<rparr>"
  by (simp add: new_id_as_register id_register_result)

lemma id_register_record:
  "id_str (snd (id_register E s i st)) (fst (id_register E s i st))
     = Some \<lparr>str = s, sid = fst (id_register E s i st)\<rparr>"
  by (simp add: id_register_result)

lemma intern_last_id:
  assumes pos: "0 \<le> last_id st" and room: "last_id st + int (length s) + 1 < 2 ^ 61"
  shows "last_id st \<le> last_id (snd (rb_intern_str E s st))
       \<and> last_id (snd (rb_intern_str E s st)) \<le> last_id st + int (length s) + 1"
  using room
proof (induction "length s" arbitrary: s rule: less_induct)
  case less
  note room = less.prems
  show ?case
  proof (cases "sym_lookup E st s = 0")
    case False
    then show ?thesis by (simp add: intern_hit)
  next
    case True
    from intern_miss_cases [OF True] show ?thesis
    proof (elim disjE exE conjE)
      fix t assume r: "rb_intern_str E s st = new_id E s t st"
      from room have "last_id st + 1 < 2 ^ 61" by simp
      from new_id_result [OF pos this] show ?thesis by (simp add: r)
    next
      assume sh: "1 < length s" "last s = CHR ''=''"
        and br: "if is_attrset_id E (fst (rb_intern_str E (butlast s) st))
              then rb_intern_str E s st
                     = new_id E s ID_JUNK (snd (rb_intern_str E (butlast s) st))
              else rb_intern_str E s st
                     = id_register E s (rb_id_attrset (fst (rb_intern_str E (butlast s) st)))
                         (snd (rb_intern_str E (butlast s) st))"
      let ?st1 = "snd (rb_intern_str E (butlast s) st)"
      from sh have lt: "length (butlast s) < length s" by simp
      from sh room have "last_id st + int (length (butlast s)) + 1 < 2 ^ 61" by simp
      from less.hyps [OF lt this]
      have ih: "last_id st \<le> last_id ?st1"
        "last_id ?st1 \<le> last_id st + int (length (butlast s)) + 1" by simp_all
      from sh ih(2) have up: "last_id ?st1 \<le> last_id st + int (length s)" by simp
      show ?thesis
      proof (cases "is_attrset_id E (fst (rb_intern_str E (butlast s) st))")
        case True
        from ih(1) pos have p: "0 \<le> last_id ?st1" by simp
        from up room have q: "last_id ?st1 + 1 < 2 ^ 61" by simp
        from True br have "rb_intern_str E s st = new_id E s ID_JUNK ?st1" by simp
        with new_id_result [OF p q] ih(1) up show ?thesis by simp
      next
        case False
        with br ih(1) up show ?thesis by (simp add: id_register_result)
      qed
    qed
  qed
qed

lemma intern_step:
  assumes ok: "table_ok E st" and plain: "plain_name E st s"
    and nc: "inj_on (rb_str_hash E) (dyn_names st \<union> set (strip_chain s))"
    and room: "last_id st + int (length s) + 1 < 2 ^ 61"
  shows "table_ok E (snd (rb_intern_str E s st))
       \<and> id_str (snd (rb_intern_str E s st)) (fst (rb_intern_str E s st))
           = Some \<lparr>str = s, sid = fst (rb_intern_str E s st)\<rparr>
       \<and> first_dynamic \<le> fst (rb_intern_str E s st)
       \<and> grows E s st (snd (rb_intern_str E s st))"
  using plain nc room
proof (induction "length s" arbitrary: s rule: less_induct)
  case less
  note plain = less.prems(1) and nc = less.prems(2) and room = less.prems(3)
  from ok have bd: "tLAST_TOKEN E < first_dynamic"
    and k: "keys_ok E st" and r: "recs_ok E st" and pos: "0 \<le> last_id st"
    by (simp_all add: table_ok_def)
  from room have room1: "last_id st + 1 < 2 ^ 61" by simp
  show ?case
  proof (cases "sym_lookup E st s = 0")
    case False
    let ?i = "sym_lookup E st s"
    from False have res: "rb_intern_str E s st = (?i, st)" by (rule intern_hit)
    from False plain_name_self [OF plain] have top: "tLAST_TOKEN E < ?i" by simp
    from False obtain i where i: "sym_id st (rb_str_hash E s) = Some i" "?i = i"
      by (cases "sym_id st (rb_str_hash E s)") (simp_all add: CFDictionaryGetValue_def)
    with k top obtain sy where sy: "first_dynamic \<le> i" "id_str st i = Some sy"
      "rb_str_hash E (str sy) = rb_str_hash E s"
      unfolding keys_ok_def by force
    then have "str sy \<in> dyn_names st" unfolding dyn_names_def by blast
    with nc sy(3) strip_chain_self [of s] have "str sy = s"
      by (auto dest: inj_onD)
    moreover from r sy(1,2) bd have "sid sy = i" unfolding recs_ok_def by force
    ultimately have "sy = \<lparr>str = s, sid = i\<rparr>" by (cases sy) simp
    with sy i ok show ?thesis by (simp add: res grows_refl)
  next
    case True
    with k have miss: "sym_id st (rb_str_hash E s) = None" by (simp add: lookup_zero)
    from intern_miss_cases [OF True] show ?thesis
    proof (elim disjE exE conjE)
      fix t assume t: "0 \<le> t" "t < 8" "t \<noteq> 4" "rb_intern_str E s st = new_id E s t st"
      from register_fresh [OF ok miss t(1-3) room1] show ?thesis
        by (simp add: t(4) new_id_record)
    next
      assume sh: "1 < length s" "last s = CHR ''=''"
        and br: "if is_attrset_id E (fst (rb_intern_str E (butlast s) st))
              then rb_intern_str E s st
                     = new_id E s ID_JUNK (snd (rb_intern_str E (butlast s) st))
              else rb_intern_str E s st
                     = id_register E s (rb_id_attrset (fst (rb_intern_str E (butlast s) st)))
                         (snd (rb_intern_str E (butlast s) st))"
      let ?b = "butlast s"
      let ?i0 = "fst (rb_intern_str E ?b st)"
      let ?st1 = "snd (rb_intern_str E ?b st)"
      from sh have lt: "length ?b < length s" by simp
      note sub = strip_chain_butlast [OF sh]
      have ncb: "inj_on (rb_str_hash E) (dyn_names st \<union> set (strip_chain ?b))"
        by (rule inj_on_subset [OF nc]) (use sub in auto)
      from sh room have roomb: "last_id st + int (length ?b) + 1 < 2 ^ 61" by simp
      from less.hyps [OF lt plain_name_butlast [OF plain sh] ncb roomb]
      have ih: "table_ok E ?st1" "id_str ?st1 ?i0 = Some \<lparr>str = ?b, sid = ?i0\<rparr>"
        "first_dynamic \<le> ?i0" "grows E ?b st ?st1"
        by simp_all
      from intern_last_id [OF pos roomb, of E] sh room
      have room2: "last_id ?st1 + 1 < 2 ^ 61" by simp
      have miss1: "sym_id ?st1 (rb_str_hash E s) = None"
      proof (cases "sym_id ?st1 (rb_str_hash E s)")
        case None then show ?thesis .
      next
        case (Some v)
        with miss ih(4) have "rb_str_hash E s \<in> rb_str_hash E ` set (strip_chain ?b)"
          unfolding grows_def by blast
        then obtain p where p: "p \<in> set (strip_chain ?b)" "rb_str_hash E p = rb_str_hash E s"
          by auto
        with sub nc strip_chain_self [of s] have "p = s"
          by (auto dest: inj_onD)
        with p(1) have "s \<in> set (strip_chain ?b)" by simp
        then have "length s \<le> length ?b" by (rule strip_chain_length)
        with lt show ?thesis by simp
      qed
      show ?thesis
      proof (cases "is_attrset_id E ?i0")
        case True
        with br have res: "rb_intern_str E s st = new_id E s ID_JUNK ?st1" by simp
        have "0 \<le> ID_JUNK" "ID_JUNK < 8" "ID_JUNK \<noteq> 4" by (simp_all add: ID_JUNK_def)
        from register_fresh [OF ih(1) miss1 this room2]
        have "table_ok E (snd (new_id E s ID_JUNK ?st1))"
          "grows E s ?st1 (snd (new_id E s ID_JUNK ?st1))"
          "first_dynamic \<le> fst (new_id E s ID_JUNK ?st1)" by simp_all
        moreover from ih(4) this(2) sub have "grows E s st (snd (new_id E s ID_JUNK ?st1))"
          by (rule grows_trans)
        ultimately show ?thesis by (simp add: res new_id_record)
      next
        case False
        with br have res: "rb_intern_str E s st = id_register E s (rb_id_attrset ?i0) ?st1"
          by simp
        from ih(3) bd have "is_notop_id E ?i0" by (simp add: is_notop_id_def)
        with False have tag: "?i0 AND ID_SCOPE_MASK \<noteq> ID_ATTRSET"
          by (simp add: is_attrset_id_def)
        from sh have "s \<noteq> []" by auto
        then have "butlast s @ [last s] = s" by (rule append_butlast_last_id)
        with sh have s: "str \<lparr>str = ?b, sid = ?i0\<rparr> @ ''='' = s"
          by simp
        from register_attr [OF ih(1) _ ih(2,3) tag] miss1
        have "table_ok E (snd (id_register E s (rb_id_attrset ?i0) ?st1))"
          "grows E s ?st1 (snd (id_register E s (rb_id_attrset ?i0) ?st1))"
          "first_dynamic \<le> rb_id_attrset ?i0" by (simp_all only: s)
        moreover from ih(4) this(2) sub
        have "grows E s st (snd (id_register E s (rb_id_attrset ?i0) ?st1))"
          by (rule grows_trans)
        ultimately show ?thesis by (simp add: res id_register_result)
      qed
    qed
  qed
qed

lemma reserved_only_table_ok:
  assumes "reserved_only E st" "tLAST_TOKEN E < first_dynamic" "1000 \<le> last_id st"
  shows "table_ok E st"
proof -
  from assms(1) have k: "\<forall>k i. sym_id st k = Some i \<longrightarrow> 0 < i \<and> i \<le> tLAST_TOKEN E"
    and r: "\<forall>i sy. id_str st i = Some sy \<longrightarrow> 0 < i \<and> i \<le> tLAST_TOKEN E"
    by (simp_all add: reserved_only_def)
  from k have "keys_ok E st" unfolding keys_ok_def by blast
  moreover from r have "recs_ok E st" unfolding recs_ok_def by blast
  moreover from r assms(2) have "setters_ok st" unfolding setters_ok_def by force
  moreover from r assms(2) have "owners_ok st" unfolding owners_ok_def by force
  ultimately show ?thesis using assms(2,3) by (simp add: table_ok_def)
qed

lemma pre_register_reserved:
  assumes "reserved_only E st"
    and "list_all (\<lambda>(token, name). 0 < token \<and> token \<le> tLAST_TOKEN E)
           (takeWhile (\<lambda>(token, name). token \<noteq> 0) tbl)"
  shows "reserved_only E (pre_register E tbl st) \<and> last_id (pre_register E tbl st) = last_id st"
  using assms
proof (induction tbl arbitrary: st)
  case Nil
  then show ?case by simp
next
  case (Cons e tbl)
  obtain token name where e: "e = (token, name)" by (cases e)
  show ?case
  proof (cases "token = 0")
    case True
    with e Cons.prems(1) show ?thesis by simp
  next
    case False
    let ?st1 = "st\<lparr>sym_id := (sym_id st)(rb_str_hash E name \<mapsto> token),
                   id_str := (id_str st)(token \<mapsto> sym_alloc name token)\<rparr>"
    from False e Cons.prems(2) have t: "0 < token" "token \<le> tLAST_TOKEN E"
      and rest: "list_all (\<lambda>(token, name). 0 < token \<and> token \<le> tLAST_TOKEN E)
           (takeWhile (\<lambda>(token, name). token \<noteq> 0) tbl)"
      by simp_all
    from Cons.prems(1) t have "reserved_only E ?st1"
      by (auto simp: reserved_only_def)
    from Cons.IH [OF this rest] False e show ?thesis by simp
  qed
qed

lemma init_table_ok:
  assumes "op_tbl_ok E"
  shows "table_ok E (Init_PreSymbol E)" and "reserved_only E (Init_PreSymbol E)"
proof -
  let ?st0 = "\<lparr>sym_id = Map.empty, id_str = Map.empty, last_id = 1000\<rparr>"
  have "reserved_only E ?st0" by (simp add: reserved_only_def)
  with assms have r: "reserved_only E (pre_register E (rb_op_tbl E) ?st0)
      \<and> last_id (pre_register E (rb_op_tbl E) ?st0) = last_id ?st0"
    by (intro pre_register_reserved) (simp_all add: op_tbl_ok_def)
  then show "reserved_only E (Init_PreSymbol E)" by (simp add: Init_PreSymbol_def)
  from r assms show "table_ok E (Init_PreSymbol E)"
    by (intro reserved_only_table_ok) (simp_all add: Init_PreSymbol_def op_tbl_ok_def)
qed

lemma reserved_only_no_dyn_names:
  assumes "reserved_only E st" "tLAST_TOKEN E < first_dynamic"
  shows "dyn_names st = {}"
  using assms unfolding reserved_only_def dyn_names_def by force

lemma intern_nonzero:
  assumes pos: "0 \<le> last_id st" and room: "last_id st + int (length s) + 1 < 2 ^ 61"
  shows "fst (rb_intern_str E s st) \<noteq> 0"
proof (cases "sym_lookup E st s = 0")
  case False
  then show ?thesis by (simp add: intern_hit)
next
  case True
  have fresh: "fst (new_id E s t st1) \<noteq> 0"
    if "0 \<le> t" "t < 8" "0 \<le> last_id st1" "last_id st1 + 1 < 2 ^ 61" for t st1
  proof -
    have "fst (new_id E s t st1) = 8 * (last_id st1 + 1) + t"
      using that(1,2) by (simp add: fst_new_id_in_range [OF that(3,4)] new_id_arith)
    with that show ?thesis by simp
  qed
  from room have room1: "last_id st + 1 < 2 ^ 61" by simp
  from intern_miss_cases [OF True] show ?thesis
  proof (elim disjE exE conjE)
    fix t assume "0 \<le> t" "t < 8" "rb_intern_str E s st = new_id E s t st"
    with fresh [OF _ _ pos room1] show ?thesis by simp
  next
    assume sh: "1 < length s"
      and br: "if is_attrset_id E (fst (rb_intern_str E (butlast s) st))
              then rb_intern_str E s st
                     = new_id E s ID_JUNK (snd (rb_intern_str E (butlast s) st))
              else rb_intern_str E s st
                     = id_register E s (rb_id_attrset (fst (rb_intern_str E (butlast s) st)))
                         (snd (rb_intern_str E (butlast s) st))"
    show ?thesis
    proof (cases "is_attrset_id E (fst (rb_intern_str E (butlast s) st))")
      case True
      from sh room have roomb: "last_id st + int (length (butlast s)) + 1 < 2 ^ 61" by simp
      from intern_last_id [OF pos roomb, of E] pos sh room
      have "0 \<le> last_id (snd (rb_intern_str E (butlast s) st))"
        "last_id (snd (rb_intern_str E (butlast s) st)) + 1 < 2 ^ 61" by simp_all
      from fresh [OF _ _ this, of ID_JUNK] True br show ?thesis by (simp add: ID_JUNK_def)
    next
      case False
      have "rb_id_attrset i \<noteq> 0" for i
      proof -
        have "rb_id_attrset i mod 8 = 4" by (simp add: rb_id_attrset_arith)
        then show ?thesis by auto
      qed
      with False br show ?thesis by (simp add: fst_id_register)
    qed
  qed
qed

lemma intern_idempotent:
  assumes pos: "0 \<le> last_id st" and room: "last_id st + int (length s) + 1 < 2 ^ 61"
  shows "fst (rb_intern_str E s (snd (rb_intern_str E s st))) = fst (rb_intern_str E s st)"
    and "snd (rb_intern_str E s (snd (rb_intern_str E s st))) = snd (rb_intern_str E s st)"
proof -
  have "rb_intern_str E s (snd (rb_intern_str E s st))
          = (fst (rb_intern_str E s st), snd (rb_intern_str E s st))"
  proof (cases "sym_lookup E st s = 0")
    case False
    then show ?thesis by (simp add: intern_hit)
  next
    case True
    from intern_miss_form [OF True] obtain i1 st1
      where r: "rb_intern_str E s st = id_register E s i1 st1" by blast
    with intern_nonzero [OF pos room, of E] have "i1 \<noteq> 0" by (simp add: fst_id_register)
    then have "sym_lookup E (snd (id_register E s i1 st1)) s = i1"
      "sym_lookup E (snd (id_register E s i1 st1)) s \<noteq> 0"
      by (simp_all add: id_register_result CFDictionaryGetValue_def)
    then show ?thesis by (simp add: r intern_hit fst_id_register)
  qed
  then show "fst (rb_intern_str E s (snd (rb_intern_str E s st))) = fst (rb_intern_str E s st)"
    and "snd (rb_intern_str E s (snd (rb_intern_str E s st))) = snd (rb_intern_str E s st)"
    by simp_all
qed

lemma plain_name_grows:
  assumes ok: "table_ok E st" and g: "grows E s1 st st1" and p: "plain_name E st s"
  shows "plain_name E st1 s"
  unfolding plain_name_def list_all_iff
proof
  fix q assume q: "q \<in> set (strip_chain s)"
  from ok have bd: "tLAST_TOKEN E < first_dynamic" by (simp add: table_ok_def)
  from p q have old: "sym_lookup E st q = 0 \<or> tLAST_TOKEN E < sym_lookup E st q"
    by (simp add: plain_name_def list_all_iff)
  show "sym_lookup E st1 q = 0 \<or> tLAST_TOKEN E < sym_lookup E st1 q"
  proof (cases "sym_id st1 (rb_str_hash E q)")
    case None
    then show ?thesis by (simp add: CFDictionaryGetValue_def)
  next
    case (Some v)
    show ?thesis
    proof (cases "sym_id st (rb_str_hash E q)")
      case None
      with Some g have "first_dynamic \<le> v" unfolding grows_def by blast
      with bd Some show ?thesis by (simp add: CFDictionaryGetValue_def)
    next
      case (Some v0)
      with g have "sym_id st1 (rb_str_hash E q) = Some v0" unfolding grows_def by blast
      with Some old show ?thesis by (simp add: CFDictionaryGetValue_def)
    qed
  qed
qed

lemma dyn_names_grows:
  assumes "grows E s st st1"
  shows "dyn_names st1 \<subseteq> dyn_names st \<union> set (strip_chain s)"
proof
  fix n assume "n \<in> dyn_names st1"
  then obtain i sy where a: "id_str st1 i = Some sy" "first_dynamic \<le> i" "str sy = n"
    unfolding dyn_names_def by blast
  show "n \<in> dyn_names st \<union> set (strip_chain s)"
  proof (cases "id_str st i")
    case None
    with a assms show ?thesis unfolding grows_def by blast
  next
    case (Some sy0)
    with assms have "id_str st1 i = Some sy0" unfolding grows_def by blast
    with a Some show ?thesis unfolding dyn_names_def by auto
  qed
qed

lemma intern_two:
  assumes ok: "table_ok E st" and plain: "plain_name E st s1" "plain_name E st s2"
    and nc: "inj_on (rb_str_hash E) (dyn_names st \<union> set (strip_chain s1) \<union> set (strip_chain s2))"
    and room: "last_id st + int (length s1) + int (length s2) + 2 < 2 ^ 61"
  shows "table_ok E (snd (rb_intern_str E s2 (snd (rb_intern_str E s1 st))))"
    and "s1 \<noteq> s2 \<Longrightarrow>
           fst (rb_intern_str E s2 (snd (rb_intern_str E s1 st))) \<noteq> fst (rb_intern_str E s1 st)"
proof -
  let ?i1 = "fst (rb_intern_str E s1 st)"
  let ?st1 = "snd (rb_intern_str E s1 st)"
  let ?i2 = "fst (rb_intern_str E s2 ?st1)"
  let ?st2 = "snd (rb_intern_str E s2 ?st1)"
  have nc1: "inj_on (rb_str_hash E) (dyn_names st \<union> set (strip_chain s1))"
    by (rule inj_on_subset [OF nc]) auto
  from ok have pos: "0 \<le> last_id st" by (simp add: table_ok_def)
  from room have room1: "last_id st + int (length s1) + 1 < 2 ^ 61" by simp
  from intern_step [OF ok plain(1) nc1 room1]
  have a: "table_ok E ?st1" "id_str ?st1 ?i1 = Some \<lparr>str = s1, sid = ?i1\<rparr>"
    "grows E s1 st ?st1" by simp_all
  from intern_last_id [OF pos room1, of E] room
  have room2: "last_id ?st1 + int (length s2) + 1 < 2 ^ 61" by simp
  have p2: "plain_name E ?st1 s2"
    by (rule plain_name_grows [OF ok a(3) plain(2)])
  have nc2: "inj_on (rb_str_hash E) (dyn_names ?st1 \<union> set (strip_chain s2))"
    by (rule inj_on_subset [OF nc]) (use dyn_names_grows [OF a(3)] in auto)
  from intern_step [OF a(1) p2 nc2 room2]
  have b: "table_ok E ?st2" "id_str ?st2 ?i2 = Some \<lparr>str = s2, sid = ?i2\<rparr>"
    "grows E s2 ?st1 ?st2" by simp_all
  show "table_ok E ?st2" by (rule b(1))
  show "?i2 \<noteq> ?i1" if "s1 \<noteq> s2"
  proof
    assume e: "?i2 = ?i1"
    from a(2) b(3) have "id_str ?st2 ?i1 = Some \<lparr>str = s1, sid = ?i1\<rparr>"
      unfolding grows_def by blast
    with b(2) e have "s1 = s2" by simp
    with that show False by simp
  qed
qed

lemma records_text_id:
  assumes ok: "table_ok E st"
    and r: "id_str st i = Some a" "id_str st j = Some b" "first_dynamic \<le> i" "first_dynamic \<le> j"
  shows "str a = str b \<longleftrightarrow> i = j"
proof
  assume "i = j"
  with r show "str a = str b" by simp
next
  assume e: "str a = str b"
  from ok have bd: "tLAST_TOKEN E < first_dynamic" and rc: "recs_ok E st"
    by (simp_all add: table_ok_def)
  from rc r(1,3) bd have "sym_id st (rb_str_hash E (str a)) = Some i"
    unfolding recs_ok_def by force
  moreover from rc r(2,4) bd have "sym_id st (rb_str_hash E (str b)) = Some j"
    unfolding recs_ok_def by force
  ultimately show "i = j" using e by simp
qed

lemma sample_tbl_ok: "op_tbl_ok sample_env"
  by (simp add: op_tbl_ok_def sample_env_def first_dynamic_eq)

lemma sample_foo_bar:
  "rb_intern_str sample_env ''bar='' (snd (rb_intern_str sample_env ''foo'' (Init_PreSymbol sample_env)))
   = (8020, (Init_PreSymbol sample_env)
              \<lparr>last_id := 1002,
               sym_id := (sym_id (Init_PreSymbol sample_env))
                           (radix_hash ''foo'' \<mapsto> 8008, radix_hash ''bar'' \<mapsto> 8016,
                            radix_hash ''bar='' \<mapsto> 8020),
               id_str := (id_str (Init_PreSymbol sample_env))
                           (8008 \<mapsto> \<lparr>str = ''foo'', sid = 8008\<rparr>,
                            8016 \<mapsto> \<lparr>str = ''bar'', sid = 8016\<rparr>,
                            8020 \<mapsto> \<lparr>str = ''bar='', sid = 8020\<rparr>)\<rparr>)"
proof -
  let ?st0 = "Init_PreSymbol sample_env"
  let ?st1 = "?st0\<lparr>last_id := 1001, sym_id := (sym_id ?st0)(radix_hash ''foo'' \<mapsto> 8008),
                 id_str := (id_str ?st0)(8008 \<mapsto> \<lparr>str = ''foo'', sid = 8008\<rparr>)\<rparr>"
  have st1: "snd (rb_intern_str sample_env ''foo'' ?st0) = ?st1"
    by (simp add: sample_foo)
  have m: "sym_lookup sample_env ?st1 ''bar='' = 0" "sym_lookup sample_env ?st1 ''bar'' = 0"
    by (simp_all add: sample_hash CFDictionaryGetValue_def) (simp_all add: init_sample radix_hash_def)
  have il: "ident_loop sample_env ''bar'' 0 = 3"
    by (simp add: ident_loop.simps ctype_defs)
  have "rb_intern_str sample_env ''bar'' ?st1 = new_id sample_env ''bar'' ID_LOCAL ?st1"
    using m by (subst intern_plain) (simp_all add: scan_ident_def il ctype_defs)
  then have bar: "rb_intern_str sample_env ''bar'' ?st1 =
      (8016, ?st0\<lparr>last_id := 1002,
                 sym_id := (sym_id ?st0)(radix_hash ''foo'' \<mapsto> 8008, radix_hash ''bar'' \<mapsto> 8016),
                 id_str := (id_str ?st0)(8008 \<mapsto> \<lparr>str = ''foo'', sid = 8008\<rparr>,
                                          8016 \<mapsto> \<lparr>str = ''bar'', sid = 8016\<rparr>)\<rparr>)"
    by (simp add: new_id_result sample_hash init_last_id) (simp add: scope_defs)
  have na: "\<not> is_attrset_id sample_env 8016"
    by (simp add: is_attrset_id_def scope_mod ID_ATTRSET_def)
  have "rb_intern_str sample_env ''bar='' ?st1 =
          id_register sample_env ''bar='' (rb_id_attrset (fst (rb_intern_str sample_env (butlast ''bar='') ?st1)))
            (snd (rb_intern_str sample_env (butlast ''bar='') ?st1))"
    using m na by (intro intern_attr_derive) (simp_all add: bar)
  then show ?thesis
    by (simp add: st1 bar id_register_result sample_hash rb_id_attrset_arith)
qed

lemma init_aliasing:
  "Init_PreSymbol aliasing_env =
     \<lparr>sym_id = [44 \<mapsto> 43, 46 \<mapsto> 45, 125 \<mapsto> 124, 127 \<mapsto> 126],
      id_str = [43 \<mapsto> \<lparr>str = ''+'', sid = 43\<rparr>, 45 \<mapsto> \<lparr>str = ''-'', sid = 45\<rparr>,
                124 \<mapsto> \<lparr>str = ''|'', sid = 124\<rparr>, 126 \<mapsto> \<lparr>str = ''~'', sid = 126\<rparr>],
      last_id = 1000\<rparr>"
  by (simp add: Init_PreSymbol_def aliasing_env_def sample_env_def radix_hash_def sym_alloc_def)

lemma aliasing_hash:
  "rb_str_hash aliasing_env = (\<lambda>s. if s = ''b'' then radix_hash ''a'' else radix_hash s)"
  by (simp add: aliasing_env_def)

text \<open>
  C2, as the code has it. The counter is a 64-bit \<open>long\<close> shifted left by three bits, so
  what follows holds while it has room: the counter is not negative and stays below
  \<open>2 ^ 61\<close> after the calls, each of which takes at most one number for every character
  of the name, and one more. Interning is idempotent: a second call with the same name
  returns the ID of the first. It is injective on names that are not operator tokens,
  barring hash collisions: in a consistent table, when no name in the chains of \<open>s1\<close>
  and \<open>s2\<close> is found under an operator token and the hash separates these names from
  each other and from the dynamic names of the table, interning \<open>s1\<close> and then \<open>s2\<close>
  gives different IDs for different names, and the table stays consistent. In a
  consistent table two dynamic records have the same text exactly when they have the
  same ID.
\<close>

theorem intern_idempotent_injective:
  "(0 \<le> last_id st \<and> last_id st + int (length s1) + 1 < 2 ^ 61 \<longrightarrow>
      fst (rb_intern_str E s1 (snd (rb_intern_str E s1 st))) = fst (rb_intern_str E s1 st))
   \<and> (table_ok E st \<and> plain_name E st s1 \<and> plain_name E st s2
       \<and> inj_on (rb_str_hash E) (dyn_names st \<union> set (strip_chain s1) \<union> set (strip_chain s2))
       \<and> last_id st + int (length s1) + int (length s2) + 2 < 2 ^ 61
       \<and> s1 \<noteq> s2 \<longrightarrow>
         fst (rb_intern_str E s2 (snd (rb_intern_str E s1 st))) \<noteq> fst (rb_intern_str E s1 st)
         \<and> table_ok E (snd (rb_intern_str E s2 (snd (rb_intern_str E s1 st)))))
   \<and> (table_ok E st \<longrightarrow>
        (\<forall>i j a b. id_str st i = Some a \<and> id_str st j = Some b
             \<and> first_dynamic \<le> i \<and> first_dynamic \<le> j \<longrightarrow> (str a = str b \<longleftrightarrow> i = j)))"
proof (intro conjI impI allI)
  assume "0 \<le> last_id st \<and> last_id st + int (length s1) + 1 < 2 ^ 61"
  then show "fst (rb_intern_str E s1 (snd (rb_intern_str E s1 st))) = fst (rb_intern_str E s1 st)"
    by (intro intern_idempotent(1)) simp_all
next
  assume a: "table_ok E st \<and> plain_name E st s1 \<and> plain_name E st s2
       \<and> inj_on (rb_str_hash E) (dyn_names st \<union> set (strip_chain s1) \<union> set (strip_chain s2))
       \<and> last_id st + int (length s1) + int (length s2) + 2 < 2 ^ 61
       \<and> s1 \<noteq> s2"
  then show "fst (rb_intern_str E s2 (snd (rb_intern_str E s1 st))) \<noteq> fst (rb_intern_str E s1 st)"
    using intern_two(2) by blast
next
  assume a: "table_ok E st \<and> plain_name E st s1 \<and> plain_name E st s2
       \<and> inj_on (rb_str_hash E) (dyn_names st \<union> set (strip_chain s1) \<union> set (strip_chain s2))
       \<and> last_id st + int (length s1) + int (length s2) + 2 < 2 ^ 61
       \<and> s1 \<noteq> s2"
  then show "table_ok E (snd (rb_intern_str E s2 (snd (rb_intern_str E s1 st))))"
    using intern_two(1) by blast
next
  fix i j a b
  assume "table_ok E st" and "id_str st i = Some a \<and> id_str st j = Some b
             \<and> first_dynamic \<le> i \<and> first_dynamic \<le> j"
  then show "str a = str b \<longleftrightarrow> i = j"
    using records_text_id by blast
qed

theorem intern_idempotent_injective_witness:
  "0 \<le> last_id (Init_PreSymbol sample_env)
   \<and> last_id (Init_PreSymbol sample_env) + int (length ''foo'') + 1 < 2 ^ 61
   \<and> fst (rb_intern_str sample_env ''foo''
            (snd (rb_intern_str sample_env ''foo'' (Init_PreSymbol sample_env))))
       = fst (rb_intern_str sample_env ''foo'' (Init_PreSymbol sample_env))
   \<and> table_ok sample_env (Init_PreSymbol sample_env)
   \<and> plain_name sample_env (Init_PreSymbol sample_env) ''foo''
   \<and> plain_name sample_env (Init_PreSymbol sample_env) ''bar=''
   \<and> inj_on (rb_str_hash sample_env)
        (dyn_names (Init_PreSymbol sample_env) \<union> set (strip_chain ''foo'')
           \<union> set (strip_chain ''bar=''))
   \<and> last_id (Init_PreSymbol sample_env) + int (length ''foo'') + int (length ''bar='') + 2
       < 2 ^ 61
   \<and> ''foo'' \<noteq> ''bar=''
   \<and> fst (rb_intern_str sample_env ''bar=''
            (snd (rb_intern_str sample_env ''foo'' (Init_PreSymbol sample_env))))
       \<noteq> fst (rb_intern_str sample_env ''foo'' (Init_PreSymbol sample_env))
   \<and> table_ok sample_env
        (snd (rb_intern_str sample_env ''bar=''
               (snd (rb_intern_str sample_env ''foo'' (Init_PreSymbol sample_env)))))
   \<and> id_str (snd (rb_intern_str sample_env ''bar=''
               (snd (rb_intern_str sample_env ''foo'' (Init_PreSymbol sample_env))))) 8008
       = Some \<lparr>str = ''foo'', sid = 8008\<rparr>
   \<and> id_str (snd (rb_intern_str sample_env ''bar=''
               (snd (rb_intern_str sample_env ''foo'' (Init_PreSymbol sample_env))))) 8020
       = Some \<lparr>str = ''bar='', sid = 8020\<rparr>
   \<and> first_dynamic \<le> 8008 \<and> first_dynamic \<le> 8020
   \<and> (str \<lparr>str = ''foo'', sid = 8008\<rparr> = str \<lparr>str = ''bar='', sid = 8020\<rparr>)
       = ((8008::int) = 8020)"
proof -
  let ?E = sample_env
  let ?st0 = "Init_PreSymbol sample_env"
  let ?st2 = "snd (rb_intern_str ?E ''bar='' (snd (rb_intern_str ?E ''foo'' ?st0)))"
  have l: "0 \<le> last_id ?st0" "last_id ?st0 + int (length ''foo'') + 1 < 2 ^ 61"
    "last_id ?st0 + int (length ''foo'') + int (length ''bar='') + 2 < 2 ^ 61"
    by (simp_all add: init_last_id)
  have ok: "table_ok ?E ?st0" by (rule init_table_ok [OF sample_tbl_ok])
  have sc: "strip_chain ''foo'' = [''foo'']" "strip_chain ''bar='' = [''bar='', ''bar'']"
    by (simp_all add: strip_chain.simps)
  have p: "plain_name ?E ?st0 ''foo''" "plain_name ?E ?st0 ''bar=''"
    by (simp_all add: plain_name_def sc sample_hash CFDictionaryGetValue_def)
      (simp_all add: init_sample radix_hash_def)
  have "dyn_names ?st0 = {}"
    by (rule reserved_only_no_dyn_names [OF init_table_ok(2) [OF sample_tbl_ok]])
      (simp add: sample_env_def first_dynamic_eq)
  then have nc: "inj_on (rb_str_hash ?E)
        (dyn_names ?st0 \<union> set (strip_chain ''foo'') \<union> set (strip_chain ''bar=''))"
    by (simp add: sc sample_hash radix_hash_def)
  have ne: "''foo'' \<noteq> ''bar=''" by simp
  note t = intern_idempotent_injective [of ?st0 "''foo''" ?E "''bar=''"]
  from t l(1,2) have 1: "fst (rb_intern_str ?E ''foo'' (snd (rb_intern_str ?E ''foo'' ?st0)))
       = fst (rb_intern_str ?E ''foo'' ?st0)" by blast
  from t ok p nc l(3) ne
  have 2: "fst (rb_intern_str ?E ''bar='' (snd (rb_intern_str ?E ''foo'' ?st0)))
             \<noteq> fst (rb_intern_str ?E ''foo'' ?st0)"
    and 3: "table_ok ?E ?st2" by blast+
  have r: "id_str ?st2 8008 = Some \<lparr>str = ''foo'', sid = 8008\<rparr>"
    "id_str ?st2 8020 = Some \<lparr>str = ''bar='', sid = 8020\<rparr>"
    by (simp_all add: sample_foo_bar)
  have d: "first_dynamic \<le> 8008" "first_dynamic \<le> 8020"
    by (simp_all add: first_dynamic_eq)
  from intern_idempotent_injective [of ?st2 "''foo''" ?E "''bar=''"] 3 r d
  have 4: "(str \<lparr>str = ''foo'', sid = 8008\<rparr> = str \<lparr>str = ''bar='', sid = 8020\<rparr>)
       = ((8008::int) = 8020)" by blast
  from l(1,2) 1 ok p nc l(3) ne 2 3 r d 4 show ?thesis by (intro conjI)
qed

text \<open>
  C2 as the specification states it fails: that the hashes of \<open>s1\<close> and \<open>s2\<close> differ is
  not enough. Under a hash that sends \<open>b\<close> where it sends \<open>a\<close>, the names \<open>a=\<close> and
  \<open>b=\<close> have different hashes, yet \<open>b=\<close> is derived from the record found for \<open>b\<close>,
  which is the record of \<open>a\<close>, and gets the ID of \<open>a=\<close>. And a repeated call returns the
  same ID only while the counter has room: when the counter stands at \<open>2 ^ 61 - 1\<close>, the
  shifted counter no longer fits the 64 bits, the local name \<open>foo\<close> gets the ID 0, which
  is the answer of the table for an absent key, and the next call for \<open>foo\<close> returns 8.
\<close>

theorem intern_injective_counterexample:
  "rb_str_hash aliasing_env ''a='' \<noteq> rb_str_hash aliasing_env ''b=''
   \<and> ''a='' \<noteq> ''b=''
   \<and> fst (rb_intern_str aliasing_env ''a='' (Init_PreSymbol aliasing_env)) = 8012
   \<and> fst (rb_intern_str aliasing_env ''b=''
            (snd (rb_intern_str aliasing_env ''a='' (Init_PreSymbol aliasing_env)))) = 8012
   \<and> fst (rb_intern_str sample_env ''foo''
            ((Init_PreSymbol sample_env)\<lparr>last_id := 2 ^ 61 - 1\<rparr>)) = 0
   \<and> fst (rb_intern_str sample_env ''foo''
            (snd (rb_intern_str sample_env ''foo''
                   ((Init_PreSymbol sample_env)\<lparr>last_id := 2 ^ 61 - 1\<rparr>)))) = 8"
proof -
  let ?S = sample_env
  let ?w0 = "(Init_PreSymbol sample_env)\<lparr>last_id := 2 ^ 61 - 1\<rparr>"
  have fil: "ident_loop ?S ''foo'' 0 = 3"
    by (simp add: ident_loop.simps ctype_defs)
  have wm: "sym_lookup ?S ?w0 ''foo'' = 0"
    by (simp add: init_sample sample_hash radix_hash_def CFDictionaryGetValue_def)
  have "rb_intern_str ?S ''foo'' ?w0 = new_id ?S ''foo'' ID_LOCAL ?w0"
    using wm by (subst intern_plain) (simp_all add: scan_ident_def fil ctype_defs)
  then have w1: "rb_intern_str ?S ''foo'' ?w0 =
      (0, ?w0\<lparr>last_id := 2 ^ 61, sym_id := (sym_id ?w0)(radix_hash ''foo'' \<mapsto> 0),
               id_str := (id_str ?w0)(0 \<mapsto> \<lparr>str = ''foo'', sid = 0\<rparr>)\<rparr>)"
    by (simp add: new_id_as_register id_register_result sample_hash to_long_def to_ulong_def
        shift_mult ID_LOCAL_def)
  let ?w1 = "?w0\<lparr>last_id := 2 ^ 61, sym_id := (sym_id ?w0)(radix_hash ''foo'' \<mapsto> 0),
               id_str := (id_str ?w0)(0 \<mapsto> \<lparr>str = ''foo'', sid = 0\<rparr>)\<rparr>"
  have wm1: "sym_lookup ?S ?w1 ''foo'' = 0"
    by (simp add: sample_hash CFDictionaryGetValue_def)
  have "rb_intern_str ?S ''foo'' ?w1 = new_id ?S ''foo'' ID_LOCAL ?w1"
    using wm1 by (subst intern_plain) (simp_all add: scan_ident_def fil ctype_defs)
  then have w2: "fst (rb_intern_str ?S ''foo'' ?w1) = 8"
    by (simp add: new_id_as_register fst_id_register to_long_def to_ulong_def shift_mult
        ID_LOCAL_def)
  let ?E = aliasing_env
  let ?st0 = "Init_PreSymbol aliasing_env"
  have h: "rb_str_hash ?E ''a='' \<noteq> rb_str_hash ?E ''b=''"
    by (simp add: aliasing_hash radix_hash_def)
  have m: "sym_lookup ?E ?st0 ''a='' = 0" "sym_lookup ?E ?st0 ''a'' = 0"
    by (simp_all add: init_aliasing aliasing_hash radix_hash_def CFDictionaryGetValue_def)
  have il: "ident_loop ?E ''a'' 0 = 1"
    by (simp add: ident_loop.simps ctype_defs)
  have "rb_intern_str ?E ''a'' ?st0 = new_id ?E ''a'' ID_LOCAL ?st0"
    using m by (subst intern_plain) (simp_all add: scan_ident_def il ctype_defs)
  then have a: "rb_intern_str ?E ''a'' ?st0 =
      (8008, ?st0\<lparr>last_id := 1001, sym_id := (sym_id ?st0)(radix_hash ''a'' \<mapsto> 8008),
                 id_str := (id_str ?st0)(8008 \<mapsto> \<lparr>str = ''a'', sid = 8008\<rparr>)\<rparr>)"
    by (simp add: new_id_result aliasing_hash init_last_id) (simp add: init_aliasing scope_defs)
  have na: "\<not> is_attrset_id ?E 8008"
    by (simp add: is_attrset_id_def scope_mod ID_ATTRSET_def)
  have "rb_intern_str ?E ''a='' ?st0 =
          id_register ?E ''a='' (rb_id_attrset (fst (rb_intern_str ?E (butlast ''a='') ?st0)))
            (snd (rb_intern_str ?E (butlast ''a='') ?st0))"
    using m na by (intro intern_attr_derive) (simp_all add: a)
  then have ae: "rb_intern_str ?E ''a='' ?st0 =
      (8012, ?st0\<lparr>last_id := 1001,
                 sym_id := (sym_id ?st0)(radix_hash ''a'' \<mapsto> 8008, radix_hash ''a='' \<mapsto> 8012),
                 id_str := (id_str ?st0)(8008 \<mapsto> \<lparr>str = ''a'', sid = 8008\<rparr>,
                                          8012 \<mapsto> \<lparr>str = ''a='', sid = 8012\<rparr>)\<rparr>)"
    by (simp add: a id_register_result aliasing_hash rb_id_attrset_arith)
  let ?st1 = "?st0\<lparr>last_id := 1001,
                 sym_id := (sym_id ?st0)(radix_hash ''a'' \<mapsto> 8008, radix_hash ''a='' \<mapsto> 8012),
                 id_str := (id_str ?st0)(8008 \<mapsto> \<lparr>str = ''a'', sid = 8008\<rparr>,
                                          8012 \<mapsto> \<lparr>str = ''a='', sid = 8012\<rparr>)\<rparr>"
  have m1: "sym_lookup ?E ?st1 ''b='' = 0" "sym_lookup ?E ?st1 ''b'' = 8008"
    by (simp_all add: aliasing_hash CFDictionaryGetValue_def)
      (simp_all add: init_aliasing radix_hash_def)
  from m1(2) have "sym_lookup ?E ?st1 ''b'' \<noteq> 0" by simp
  then have "rb_intern_str ?E ''b'' ?st1 = (sym_lookup ?E ?st1 ''b'', ?st1)"
    by (rule intern_hit)
  then have b: "rb_intern_str ?E ''b'' ?st1 = (8008, ?st1)"
    by (simp only: m1(2))
  have "rb_intern_str ?E ''b='' ?st1 =
          id_register ?E ''b='' (rb_id_attrset (fst (rb_intern_str ?E (butlast ''b='') ?st1)))
            (snd (rb_intern_str ?E (butlast ''b='') ?st1))"
    using m1 na by (intro intern_attr_derive) (simp_all add: b)
  then have "fst (rb_intern_str ?E ''b='' ?st1) = 8012"
    by (simp add: b fst_id_register rb_id_attrset_arith)
  with h have 1: "rb_str_hash ?E ''a='' \<noteq> rb_str_hash ?E ''b='' \<and> ''a='' \<noteq> ''b=''
      \<and> fst (rb_intern_str ?E ''a='' ?st0) = 8012
      \<and> fst (rb_intern_str ?E ''b='' (snd (rb_intern_str ?E ''a='' ?st0))) = 8012"
    by (simp add: ae)
  have 2: "fst (rb_intern_str ?S ''foo'' ?w0) = 0"
    by (simp only: w1 fst_conv)
  have 3: "fst (rb_intern_str ?S ''foo'' (snd (rb_intern_str ?S ''foo'' ?w0))) = 8"
    by (simp only: w1 snd_conv w2)
  from 1 2 3 show ?thesis by (intro conjI) simp_all
qed

lemma pre_register_ops:
  assumes "ops_ok E st"
    and "distinct (map fst (takeWhile (\<lambda>(token, name). token \<noteq> 0) tbl))"
    and "\<forall>e \<in> set (takeWhile (\<lambda>(token, name). token \<noteq> 0) tbl). id_str st (fst e) = None"
  shows "ops_ok E (pre_register E tbl st)"
  using assms
proof (induction tbl arbitrary: st)
  case Nil
  then show ?case by simp
next
  case (Cons e tbl)
  obtain token name where e: "e = (token, name)" by (cases e)
  show ?case
  proof (cases "token = 0")
    case True
    with e Cons.prems(1) show ?thesis by simp
  next
    case False
    let ?st1 = "st\<lparr>sym_id := (sym_id st)(rb_str_hash E name \<mapsto> token),
                   id_str := (id_str st)(token \<mapsto> sym_alloc name token)\<rparr>"
    from False e Cons.prems(3) have free: "id_str st token = None" by simp
    have o1: "ops_ok E ?st1"
      unfolding ops_ok_def
    proof (intro allI impI)
      fix k i assume a: "sym_id ?st1 k = Some i \<and> i \<le> tLAST_TOKEN E"
      show "\<exists>sy. id_str ?st1 i = Some sy \<and> rb_str_hash E (str sy) = k \<and> sid sy = i"
      proof (cases "k = rb_str_hash E name")
        case True
        with a have "i = token" by simp
        with True show ?thesis by (simp add: sym_alloc_def)
      next
        case nk: False
        with a have "sym_id st k = Some i" "i \<le> tLAST_TOKEN E" by simp_all
        with Cons.prems(1) obtain sy where sy: "id_str st i = Some sy"
          "rb_str_hash E (str sy) = k" "sid sy = i"
          unfolding ops_ok_def by blast
        from sy(1) free have "i \<noteq> token" by auto
        with sy show ?thesis by simp
      qed
    qed
    from False e Cons.prems(2)
    have d: "distinct (map fst (takeWhile (\<lambda>(token, name). token \<noteq> 0) tbl))"
      and nt: "token \<notin> fst ` set (takeWhile (\<lambda>(token, name). token \<noteq> 0) tbl)"
      by simp_all
    have f: "\<forall>e \<in> set (takeWhile (\<lambda>(token, name). token \<noteq> 0) tbl). id_str ?st1 (fst e) = None"
    proof
      fix x assume x: "x \<in> set (takeWhile (\<lambda>(token, name). token \<noteq> 0) tbl)"
      with nt have "fst x \<noteq> token" by auto
      moreover from x False e Cons.prems(3) have "id_str st (fst x) = None" by simp
      ultimately show "id_str ?st1 (fst x) = None" by simp
    qed
    from Cons.IH [OF o1 d f] False e show ?thesis by simp
  qed
qed

lemma init_ops_ok:
  assumes "distinct (map fst (takeWhile (\<lambda>(token, name). token \<noteq> 0) (rb_op_tbl E)))"
  shows "ops_ok E (Init_PreSymbol E)"
  unfolding Init_PreSymbol_def
  by (rule pre_register_ops [OF _ assms]) (simp_all add: ops_ok_def)

lemma grows_keeps_ops:
  assumes o: "ops_ok E st" and g: "grows E s st st1" and bd: "tLAST_TOKEN E < first_dynamic"
  shows "ops_ok E st1"
  unfolding ops_ok_def
proof (intro allI impI)
  fix k i assume a: "sym_id st1 k = Some i \<and> i \<le> tLAST_TOKEN E"
  have "sym_id st k = Some i"
  proof (cases "sym_id st k")
    case None
    with a g have "first_dynamic \<le> i" unfolding grows_def by blast
    with a bd show ?thesis by simp
  next
    case (Some v)
    with g have "sym_id st1 k = Some v" unfolding grows_def by blast
    with a Some show ?thesis by simp
  qed
  with a o obtain sy where sy: "id_str st i = Some sy" "rb_str_hash E (str sy) = k" "sid sy = i"
    unfolding ops_ok_def by blast
  from sy(1) g have "id_str st1 i = Some sy" unfolding grows_def by blast
  with sy show "\<exists>sy. id_str st1 i = Some sy \<and> rb_str_hash E (str sy) = k \<and> sid sy = i"
    by blast
qed

lemma found_dynamic:
  assumes ok: "table_ok E st" and hit: "sym_lookup E st s \<noteq> 0"
    and top: "tLAST_TOKEN E < sym_lookup E st s"
    and nc: "inj_on (rb_str_hash E) (dyn_names st \<union> {s})"
  shows "id_str st (sym_lookup E st s) = Some \<lparr>str = s, sid = sym_lookup E st s\<rparr>"
    and "first_dynamic \<le> sym_lookup E st s"
proof -
  let ?i = "sym_lookup E st s"
  from ok have bd: "tLAST_TOKEN E < first_dynamic"
    and k: "keys_ok E st" and r: "recs_ok E st"
    by (simp_all add: table_ok_def)
  from hit obtain i where i: "sym_id st (rb_str_hash E s) = Some i" "?i = i"
    by (cases "sym_id st (rb_str_hash E s)") (simp_all add: CFDictionaryGetValue_def)
  with k top obtain sy where sy: "first_dynamic \<le> i" "id_str st i = Some sy"
    "rb_str_hash E (str sy) = rb_str_hash E s"
    unfolding keys_ok_def by force
  then have "str sy \<in> dyn_names st" unfolding dyn_names_def by blast
  then have "str sy \<in> dyn_names st \<union> {s}" "s \<in> dyn_names st \<union> {s}" by simp_all
  from inj_onD [OF nc sy(3) this] have "str sy = s" .
  moreover from r sy(1,2) bd have "sid sy = i" unfolding recs_ok_def by force
  ultimately have "sy = \<lparr>str = s, sid = i\<rparr>" by (cases sy) simp
  with sy i show "id_str st ?i = Some \<lparr>str = s, sid = ?i\<rparr>" by simp
  from sy(1) i show "first_dynamic \<le> ?i" by simp
qed

lemma found_operator:
  assumes o: "ops_ok E st" and hit: "sym_lookup E st s \<noteq> 0"
    and op: "sym_lookup E st s \<le> tLAST_TOKEN E"
    and nc: "inj_on (rb_str_hash E) (op_names E st \<union> {s})"
  shows "id_str st (sym_lookup E st s) = Some \<lparr>str = s, sid = sym_lookup E st s\<rparr>"
proof -
  let ?i = "sym_lookup E st s"
  from hit obtain i where i: "sym_id st (rb_str_hash E s) = Some i" "?i = i"
    by (cases "sym_id st (rb_str_hash E s)") (simp_all add: CFDictionaryGetValue_def)
  with o op obtain sy where sy: "id_str st i = Some sy"
    "rb_str_hash E (str sy) = rb_str_hash E s" "sid sy = i"
    unfolding ops_ok_def by force
  from sy(1) op i(2) have "str sy \<in> op_names E st" unfolding op_names_def by auto
  then have "str sy \<in> op_names E st \<union> {s}" "s \<in> op_names E st \<union> {s}" by simp_all
  from inj_onD [OF nc sy(2) this] have "str sy = s" .
  with sy(3) have "sy = \<lparr>str = s, sid = i\<rparr>" by (cases sy) simp
  with sy(1) i show ?thesis by simp
qed

lemma intern_keeps_ops:
  assumes ok: "table_ok E st" and o: "ops_ok E st" and plain: "plain_name E st s"
    and nc: "inj_on (rb_str_hash E) (dyn_names st \<union> set (strip_chain s))"
    and room: "last_id st + int (length s) + 1 < 2 ^ 61"
  shows "ops_ok E (snd (rb_intern_str E s st))"
proof -
  from ok have bd: "tLAST_TOKEN E < first_dynamic" by (simp add: table_ok_def)
  from intern_step [OF ok plain nc room] have "grows E s st (snd (rb_intern_str E s st))"
    by simp
  with o show ?thesis using bd by (rule grows_keeps_ops)
qed

text \<open>
  C1, as the code has it. Resolving the ID that interning a name returns gives the record
  of the name back in each of the three cases of the lookup, under the conditions that the
  case needs. A name that is not in the table is registered and resolves to itself, in
  every table. A name that is found under a dynamic ID resolves to itself when the table
  is consistent and the hash separates the name from the other dynamic names. A name that
  is found under the ID of an operator token resolves to itself when the entries of the
  operator tokens are consistent and the hash separates the name from the other names
  kept under such IDs. Two things take the round trip away. The table is keyed by the
  hash alone, so a name whose hash is taken by another name gets that name's ID and
  resolves to that name. And an operator name followed by \<open>=\<close> is registered under an
  operator token's ID, in place of the record that was there, after which the entries of
  the operator tokens are no longer consistent. (\<open>init_table_ok\<close>, \<open>init_ops_ok\<close>,
  \<open>intern_step\<close> and \<open>intern_keeps_ops\<close>: the table is consistent at start-up and stays
  so when names are interned that are not built on operator tokens, barring collisions
  and while the counter has room.)
\<close>

theorem intern_resolve_roundtrip:
  "(sym_lookup E st s = 0 \<longrightarrow>
      rb_id2str E (fst (rb_intern_str E s st)) (snd (rb_intern_str E s st))
      = (Some \<lparr>str = s, sid = fst (rb_intern_str E s st)\<rparr>, snd (rb_intern_str E s st)))
   \<and> (table_ok E st \<and> sym_lookup E st s \<noteq> 0 \<and> tLAST_TOKEN E < sym_lookup E st s
       \<and> inj_on (rb_str_hash E) (dyn_names st \<union> {s}) \<longrightarrow>
         rb_id2str E (fst (rb_intern_str E s st)) (snd (rb_intern_str E s st))
         = (Some \<lparr>str = s, sid = fst (rb_intern_str E s st)\<rparr>, st))
   \<and> (ops_ok E st \<and> sym_lookup E st s \<noteq> 0 \<and> sym_lookup E st s \<le> tLAST_TOKEN E
       \<and> inj_on (rb_str_hash E) (op_names E st \<union> {s}) \<longrightarrow>
         rb_id2str E (fst (rb_intern_str E s st)) (snd (rb_intern_str E s st))
         = (Some \<lparr>str = s, sid = fst (rb_intern_str E s st)\<rparr>, st))"
proof (intro conjI impI)
  assume "sym_lookup E st s = 0"
  then show "rb_id2str E (fst (rb_intern_str E s st)) (snd (rb_intern_str E s st))
      = (Some \<lparr>str = s, sid = fst (rb_intern_str E s st)\<rparr>, snd (rb_intern_str E s st))"
    by (intro id2str_found intern_registers)
next
  assume a: "table_ok E st \<and> sym_lookup E st s \<noteq> 0 \<and> tLAST_TOKEN E < sym_lookup E st s
       \<and> inj_on (rb_str_hash E) (dyn_names st \<union> {s})"
  then have r: "id_str st (sym_lookup E st s) = Some \<lparr>str = s, sid = sym_lookup E st s\<rparr>"
    using found_dynamic(1) [of E st s] by blast
  from a have nz: "sym_lookup E st s \<noteq> 0" by simp
  from nz have "rb_intern_str E s st = (sym_lookup E st s, st)" by (rule intern_hit)
  with r show "rb_id2str E (fst (rb_intern_str E s st)) (snd (rb_intern_str E s st))
         = (Some \<lparr>str = s, sid = fst (rb_intern_str E s st)\<rparr>, st)"
    by (simp add: id2str_found)
next
  assume a: "ops_ok E st \<and> sym_lookup E st s \<noteq> 0 \<and> sym_lookup E st s \<le> tLAST_TOKEN E
       \<and> inj_on (rb_str_hash E) (op_names E st \<union> {s})"
  then have r: "id_str st (sym_lookup E st s) = Some \<lparr>str = s, sid = sym_lookup E st s\<rparr>"
    using found_operator [of E st s] by blast
  from a have "rb_intern_str E s st = (sym_lookup E st s, st)" by (intro intern_hit) simp
  with r show "rb_id2str E (fst (rb_intern_str E s st)) (snd (rb_intern_str E s st))
         = (Some \<lparr>str = s, sid = fst (rb_intern_str E s st)\<rparr>, st)"
    by (simp add: id2str_found)
qed

theorem intern_resolve_roundtrip_witness:
  "sym_lookup sample_env (Init_PreSymbol sample_env) ''foo'' = 0
   \<and> rb_id2str sample_env
        (fst (rb_intern_str sample_env ''foo'' (Init_PreSymbol sample_env)))
        (snd (rb_intern_str sample_env ''foo'' (Init_PreSymbol sample_env)))
       = (Some \<lparr>str = ''foo'', sid = 8008\<rparr>,
          snd (rb_intern_str sample_env ''foo'' (Init_PreSymbol sample_env)))
   \<and> table_ok sample_env (snd (rb_intern_str sample_env ''foo'' (Init_PreSymbol sample_env)))
   \<and> sym_lookup sample_env
        (snd (rb_intern_str sample_env ''foo'' (Init_PreSymbol sample_env))) ''foo'' \<noteq> 0
   \<and> tLAST_TOKEN sample_env
       < sym_lookup sample_env
           (snd (rb_intern_str sample_env ''foo'' (Init_PreSymbol sample_env))) ''foo''
   \<and> inj_on (rb_str_hash sample_env)
        (dyn_names (snd (rb_intern_str sample_env ''foo'' (Init_PreSymbol sample_env)))
           \<union> {''foo''})
   \<and> rb_id2str sample_env
        (fst (rb_intern_str sample_env ''foo''
               (snd (rb_intern_str sample_env ''foo'' (Init_PreSymbol sample_env)))))
        (snd (rb_intern_str sample_env ''foo''
               (snd (rb_intern_str sample_env ''foo'' (Init_PreSymbol sample_env)))))
       = (Some \<lparr>str = ''foo'', sid = 8008\<rparr>,
          snd (rb_intern_str sample_env ''foo'' (Init_PreSymbol sample_env)))
   \<and> ops_ok sample_env (Init_PreSymbol sample_env)
   \<and> sym_lookup sample_env (Init_PreSymbol sample_env) ''+'' \<noteq> 0
   \<and> sym_lookup sample_env (Init_PreSymbol sample_env) ''+'' \<le> tLAST_TOKEN sample_env
   \<and> inj_on (rb_str_hash sample_env) (op_names sample_env (Init_PreSymbol sample_env) \<union> {''+''})
   \<and> rb_id2str sample_env
        (fst (rb_intern_str sample_env ''+'' (Init_PreSymbol sample_env)))
        (snd (rb_intern_str sample_env ''+'' (Init_PreSymbol sample_env)))
       = (Some \<lparr>str = ''+'', sid = 43\<rparr>, Init_PreSymbol sample_env)"
proof -
  let ?E = sample_env
  let ?st0 = "Init_PreSymbol sample_env"
  let ?st1 = "snd (rb_intern_str ?E ''foo'' ?st0)"
  have m: "sym_lookup ?E ?st0 ''foo'' = 0"
    by (simp add: init_sample sample_hash radix_hash_def CFDictionaryGetValue_def)
  have f0: "fst (rb_intern_str ?E ''foo'' ?st0) = 8008" by (simp add: sample_foo)
  from intern_resolve_roundtrip [where E = ?E and st = ?st0 and s = "''foo''"] m
  have "rb_id2str ?E (fst (rb_intern_str ?E ''foo'' ?st0)) ?st1
          = (Some \<lparr>str = ''foo'', sid = fst (rb_intern_str ?E ''foo'' ?st0)\<rparr>, ?st1)"
    by blast
  then have 1: "rb_id2str ?E (fst (rb_intern_str ?E ''foo'' ?st0)) ?st1
          = (Some \<lparr>str = ''foo'', sid = 8008\<rparr>, ?st1)"
    by (simp only: f0)
  have ok0: "table_ok ?E ?st0" by (rule init_table_ok [OF sample_tbl_ok])
  have sc: "strip_chain ''foo'' = [''foo'']"
    by (simp add: strip_chain.simps)
  have p0: "plain_name ?E ?st0 ''foo''"
    by (simp add: plain_name_def sc m)
  have d0: "dyn_names ?st0 = {}"
    by (rule reserved_only_no_dyn_names [OF init_table_ok(2) [OF sample_tbl_ok]])
      (simp add: sample_env_def first_dynamic_eq)
  then have nc0: "inj_on (rb_str_hash ?E) (dyn_names ?st0 \<union> set (strip_chain ''foo''))"
    by (simp add: sc)
  have r0: "last_id ?st0 + int (length ''foo'') + 1 < 2 ^ 61"
    by (simp add: init_last_id)
  from intern_step [OF ok0 p0 nc0 r0]
  have ok: "table_ok ?E ?st1" and g: "grows ?E ''foo'' ?st0 ?st1" by simp_all
  have l: "sym_lookup ?E ?st1 ''foo'' = 8008"
    by (simp add: sample_foo sample_hash CFDictionaryGetValue_def)
  then have nz: "sym_lookup ?E ?st1 ''foo'' \<noteq> 0"
    and top: "tLAST_TOKEN ?E < sym_lookup ?E ?st1 ''foo''"
    by (simp_all add: sample_env_def)
  from dyn_names_grows [OF g] d0 have "dyn_names ?st1 \<subseteq> {''foo''}"
    by (simp add: sc)
  then have sub1: "dyn_names ?st1 \<union> {''foo''} \<subseteq> {''foo''}"
    by auto
  have "inj_on (rb_str_hash ?E) {''foo''}" by simp
  then have nc: "inj_on (rb_str_hash ?E) (dyn_names ?st1 \<union> {''foo''})"
    by (rule inj_on_subset [OF _ sub1])
  have h: "rb_intern_str ?E ''foo'' ?st1 = (8008, ?st1)"
    using intern_hit [of ?st1 ?E "''foo''"] by (simp add: l)
  from intern_resolve_roundtrip [where E = ?E and st = ?st1 and s = "''foo''"] ok nz top nc
  have "rb_id2str ?E (fst (rb_intern_str ?E ''foo'' ?st1)) (snd (rb_intern_str ?E ''foo'' ?st1))
         = (Some \<lparr>str = ''foo'', sid = fst (rb_intern_str ?E ''foo'' ?st1)\<rparr>, ?st1)"
    by blast
  then have 2: "rb_id2str ?E (fst (rb_intern_str ?E ''foo'' ?st1))
                  (snd (rb_intern_str ?E ''foo'' ?st1))
         = (Some \<lparr>str = ''foo'', sid = 8008\<rparr>, ?st1)"
    by (simp add: h)
  have o: "ops_ok ?E ?st0"
    by (rule init_ops_ok) (simp add: sample_env_def)
  have lp: "sym_lookup ?E ?st0 ''+'' = 43"
    by (simp add: init_sample sample_hash radix_hash_def CFDictionaryGetValue_def)
  then have pz: "sym_lookup ?E ?st0 ''+'' \<noteq> 0"
    and pt: "sym_lookup ?E ?st0 ''+'' \<le> tLAST_TOKEN ?E"
    by (simp_all add: sample_env_def)
  have "op_names ?E ?st0 \<subseteq> {''+'', ''-'', ''|'', ''~''}"
    by (auto simp: op_names_def init_sample split: if_splits)
  then have sub: "op_names ?E ?st0 \<union> {''+''} \<subseteq> {''+'', ''-'', ''|'', ''~''}"
    by auto
  have "inj_on radix_hash {''+'', ''-'', ''|'', ''~''}"
    by (simp add: radix_hash_def)
  then have pn: "inj_on (rb_str_hash ?E) (op_names ?E ?st0 \<union> {''+''})"
    unfolding sample_hash by (rule inj_on_subset [OF _ sub])
  have hp: "rb_intern_str ?E ''+'' ?st0 = (43, ?st0)"
    using intern_hit [of ?st0 ?E "''+''"] by (simp add: lp)
  from intern_resolve_roundtrip [where E = ?E and st = ?st0 and s = "''+''"] o pz pt pn
  have "rb_id2str ?E (fst (rb_intern_str ?E ''+'' ?st0)) (snd (rb_intern_str ?E ''+'' ?st0))
         = (Some \<lparr>str = ''+'', sid = fst (rb_intern_str ?E ''+'' ?st0)\<rparr>, ?st0)"
    by blast
  then have 3: "rb_id2str ?E (fst (rb_intern_str ?E ''+'' ?st0))
                  (snd (rb_intern_str ?E ''+'' ?st0))
         = (Some \<lparr>str = ''+'', sid = 43\<rparr>, ?st0)"
    by (simp add: hp)
  from m 1 ok nz top nc 2 o pz pt pn 3 show ?thesis by (intro conjI)
qed

text \<open>
  C1 as the specification states it, for every name, fails in two ways. Where two names
  share a hash (\<open>hash_collision_exists\<close>: a hash into 64 bits always has such names):
  with the length as hash, after \<open>ab\<close> is interned, interning \<open>cd\<close> and resolving the
  result gives \<open>ab\<close>. And, under a hash without collisions, for an operator token whose
  ID has been taken by a setter: after \<open>~=\<close> is interned, interning \<open>|\<close> returns its
  token 124 and resolving 124 gives \<open>~=\<close>.
\<close>

theorem intern_resolve_roundtrip_counterexample:
  "map_option str
     (fst (rb_id2str colliding_env
            (fst (rb_intern_str colliding_env ''cd''
                   (snd (rb_intern_str colliding_env ''ab'' (Init_PreSymbol colliding_env)))))
            (snd (rb_intern_str colliding_env ''cd''
                   (snd (rb_intern_str colliding_env ''ab'' (Init_PreSymbol colliding_env)))))))
   = Some ''ab''
   \<and> map_option str
     (fst (rb_id2str sample_env
            (fst (rb_intern_str sample_env ''|''
                   (snd (rb_intern_str sample_env ''~='' (Init_PreSymbol sample_env)))))
            (snd (rb_intern_str sample_env ''|''
                   (snd (rb_intern_str sample_env ''~='' (Init_PreSymbol sample_env)))))))
   = Some ''~=''"
proof -
  let ?st0 = "Init_PreSymbol colliding_env"
  have m: "sym_lookup colliding_env ?st0 ''ab'' = 0"
    by (simp add: init_colliding colliding_hash CFDictionaryGetValue_def)
  have il: "ident_loop colliding_env ''ab'' 0 = 2"
    by (simp add: ident_loop.simps ctype_defs)
  have "rb_intern_str colliding_env ''ab'' ?st0 = new_id colliding_env ''ab'' ID_LOCAL ?st0"
    using m by (subst intern_plain) (simp_all add: scan_ident_def il ctype_defs)
  then have ab: "rb_intern_str colliding_env ''ab'' ?st0 =
     (8008, ?st0\<lparr>last_id := 1001, sym_id := (sym_id ?st0)(2 \<mapsto> 8008),
                 id_str := (id_str ?st0)(8008 \<mapsto> \<lparr>str = ''ab'', sid = 8008\<rparr>)\<rparr>)"
    by (simp add: new_id_result colliding_hash init_last_id)
      (simp add: init_colliding scope_defs numeral_2_eq_2)
  let ?st1 = "?st0\<lparr>last_id := 1001, sym_id := (sym_id ?st0)(2 \<mapsto> 8008),
                 id_str := (id_str ?st0)(8008 \<mapsto> \<lparr>str = ''ab'', sid = 8008\<rparr>)\<rparr>"
  have "sym_lookup colliding_env ?st1 ''cd'' = 8008"
    by (simp add: colliding_hash CFDictionaryGetValue_def)
  then have cd: "rb_intern_str colliding_env ''cd'' ?st1 = (8008, ?st1)"
    by (simp add: intern_hit)
  have "id_str ?st1 8008 = Some \<lparr>str = ''ab'', sid = 8008\<rparr>" by simp
  then have "rb_id2str colliding_env 8008 ?st1 = (Some \<lparr>str = ''ab'', sid = 8008\<rparr>, ?st1)"
    by (rule id2str_found)
  then have 1: "map_option str
     (fst (rb_id2str colliding_env
            (fst (rb_intern_str colliding_env ''cd'' (snd (rb_intern_str colliding_env ''ab'' ?st0))))
            (snd (rb_intern_str colliding_env ''cd'' (snd (rb_intern_str colliding_env ''ab'' ?st0))))))
     = Some ''ab''"
    by (simp add: ab cd)
  let ?S = sample_env
  let ?s0 = "Init_PreSymbol sample_env"
  have l: "sym_lookup ?S ?s0 ''~'' = 126" "sym_lookup ?S ?s0 ''~='' = 0"
    by (simp_all add: init_sample sample_hash radix_hash_def CFDictionaryGetValue_def)
  have v: "rb_id_attrset 126 = 124" by (simp add: rb_id_attrset_arith)
  have "rb_intern_str ?S (''~'' @ ''='') ?s0 = id_register ?S (''~'' @ ''='') (rb_id_attrset 126) ?s0"
    using l by (intro operator_setter_general(1)) (simp_all add: sample_env_def)
  then have t: "rb_intern_str ?S ''~='' ?s0 = id_register ?S ''~='' 124 ?s0"
    by (simp add: v)
  let ?s1 = "snd (id_register ?S ''~='' 124 ?s0)"
  have "sym_lookup ?S ?s1 ''|'' = 124"
    by (simp add: id_register_result sample_hash CFDictionaryGetValue_def)
      (simp add: init_sample radix_hash_def)
  then have bar: "rb_intern_str ?S ''|'' ?s1 = (124, ?s1)"
    by (simp add: intern_hit)
  have "id_str ?s1 124 = Some \<lparr>str = ''~='', sid = 124\<rparr>"
    by (simp add: id_register_result)
  then have "rb_id2str ?S 124 ?s1 = (Some \<lparr>str = ''~='', sid = 124\<rparr>, ?s1)"
    by (rule id2str_found)
  then have 2: "map_option str
     (fst (rb_id2str ?S (fst (rb_intern_str ?S ''|'' (snd (rb_intern_str ?S ''~='' ?s0))))
            (snd (rb_intern_str ?S ''|'' (snd (rb_intern_str ?S ''~='' ?s0))))))
     = Some ''~=''"
    by (simp add: t bar)
  from 1 2 show ?thesis by (intro conjI)
qed

section \<open>Classification in a consistent table\<close>

lemma intern_miss_exact:
  assumes miss: "sym_lookup E st s = 0" and ns: "\<not> setter_shape s"
  shows "rb_intern_str E s st = new_id E s (name_tag E s) st"
proof (cases "s = []")
  case True
  with miss show ?thesis by (simp add: intern_empty name_tag_def)
next
  case ne: False
  show ?thesis
  proof (cases "hd s = CHR ''$''")
    case True
    with miss ne show ?thesis by (simp add: intern_global name_tag_def)
  next
    case nd: False
    show ?thesis
    proof (cases "hd s = CHR ''@''")
      case True
      with miss ne nd show ?thesis by (simp add: intern_at name_tag_def)
    next
      case na: False
      from ns nd na have "\<not> (1 < length s \<and> last s = CHR ''='')"
        by (simp add: setter_shape_def)
      with miss ne nd na show ?thesis by (simp add: intern_plain name_tag_def)
    qed
  qed
qed

lemma name_tag_range: "0 \<le> name_tag E s \<and> name_tag E s < 8 \<and> name_tag E s \<noteq> 4"
proof -
  have "0 \<le> scan_ident E s pos t \<and> scan_ident E s pos t < 8 \<and> scan_ident E s pos t \<noteq> 4"
    if "0 \<le> t" "t < 8" "t \<noteq> 4" for pos t
    using scan_ident_tag [of E s pos t] that by (auto simp: ID_JUNK_def)
  then show ?thesis
    by (simp add: name_tag_def scope_defs)
qed

lemma tags_add:
  assumes tg: "tags_ok E st1"
    and f: "id_str st2 = (id_str st1)(i \<mapsto> \<lparr>str = s, sid = i\<rparr>)"
    and free: "id_str st1 i = None"
    and new: "if setter_shape s
         then i AND ID_SCOPE_MASK = ID_ATTRSET
              \<or> (i AND ID_SCOPE_MASK = ID_JUNK
                  \<and> (\<exists>j b. id_str st1 j = Some b \<and> first_dynamic \<le> j
                        \<and> str b = butlast s \<and> j AND ID_SCOPE_MASK = ID_ATTRSET))
         else i AND ID_SCOPE_MASK = name_tag E s"
  shows "tags_ok E st2"
  unfolding tags_ok_def
proof (intro allI impI)
  fix i0 sy assume a: "id_str st2 i0 = Some sy \<and> first_dynamic \<le> i0"
  have keep: "id_str st2 j = Some b" if "id_str st1 j = Some b" for j b
  proof -
    from that free have "j \<noteq> i" by auto
    with that f show ?thesis by simp
  qed
  have c: "if setter_shape (str sy)
         then i0 AND ID_SCOPE_MASK = ID_ATTRSET
              \<or> (i0 AND ID_SCOPE_MASK = ID_JUNK
                  \<and> (\<exists>j b. id_str st1 j = Some b \<and> first_dynamic \<le> j
                        \<and> str b = butlast (str sy) \<and> j AND ID_SCOPE_MASK = ID_ATTRSET))
         else i0 AND ID_SCOPE_MASK = name_tag E (str sy)"
  proof (cases "i0 = i")
    case True
    with a f have "sy = \<lparr>str = s, sid = i\<rparr>" by simp
    with True new show ?thesis by simp
  next
    case False
    with a f have "id_str st1 i0 = Some sy" by simp
    with a tg show ?thesis unfolding tags_ok_def by blast
  qed
  show "if setter_shape (str sy)
         then i0 AND ID_SCOPE_MASK = ID_ATTRSET
              \<or> (i0 AND ID_SCOPE_MASK = ID_JUNK
                  \<and> (\<exists>j b. id_str st2 j = Some b \<and> first_dynamic \<le> j
                        \<and> str b = butlast (str sy) \<and> j AND ID_SCOPE_MASK = ID_ATTRSET))
         else i0 AND ID_SCOPE_MASK = name_tag E (str sy)"
  proof (cases "setter_shape (str sy)")
    case False
    with c show ?thesis by simp
  next
    case True
    with c have "i0 AND ID_SCOPE_MASK = ID_ATTRSET
              \<or> (i0 AND ID_SCOPE_MASK = ID_JUNK
                  \<and> (\<exists>j b. id_str st1 j = Some b \<and> first_dynamic \<le> j
                        \<and> str b = butlast (str sy) \<and> j AND ID_SCOPE_MASK = ID_ATTRSET))"
      by simp
    then have "i0 AND ID_SCOPE_MASK = ID_ATTRSET
              \<or> (i0 AND ID_SCOPE_MASK = ID_JUNK
                  \<and> (\<exists>j b. id_str st2 j = Some b \<and> first_dynamic \<le> j
                        \<and> str b = butlast (str sy) \<and> j AND ID_SCOPE_MASK = ID_ATTRSET))"
      using keep by blast
    with True show ?thesis by simp
  qed
qed

lemma base_keeps_miss:
  assumes miss: "sym_id st (rb_str_hash E s) = None"
    and g: "grows E (butlast s) st st1"
    and sh: "1 < length s" "last s = CHR ''=''"
    and nc: "inj_on (rb_str_hash E) (dyn_names st \<union> set (strip_chain s))"
  shows "sym_id st1 (rb_str_hash E s) = None"
proof (cases "sym_id st1 (rb_str_hash E s)")
  case None then show ?thesis .
next
  case (Some v)
  note sub = strip_chain_butlast [OF sh]
  from sh have lt: "length (butlast s) < length s" by simp
  from Some miss g have "rb_str_hash E s \<in> rb_str_hash E ` set (strip_chain (butlast s))"
    unfolding grows_def by blast
  then obtain p where p: "p \<in> set (strip_chain (butlast s))" "rb_str_hash E p = rb_str_hash E s"
    by auto
  with sub nc strip_chain_self [of s] have "p = s"
    by (auto dest: inj_onD)
  with p(1) have "s \<in> set (strip_chain (butlast s))" by simp
  then have "length s \<le> length (butlast s)" by (rule strip_chain_length)
  with lt show ?thesis by simp
qed

lemma intern_tags:
  assumes ok: "table_ok E st" and tg: "tags_ok E st" and plain: "plain_name E st s"
    and nc: "inj_on (rb_str_hash E) (dyn_names st \<union> set (strip_chain s))"
    and room: "last_id st + int (length s) + 1 < 2 ^ 61"
  shows "tags_ok E (snd (rb_intern_str E s st))"
  using plain nc room
proof (induction "length s" arbitrary: s rule: less_induct)
  case less
  note plain = less.prems(1) and nc = less.prems(2) and room = less.prems(3)
  from ok have k: "keys_ok E st" and pos: "0 \<le> last_id st"
    and bd: "tLAST_TOKEN E < first_dynamic"
    by (simp_all add: table_ok_def)
  from room have room1: "last_id st + 1 < 2 ^ 61" by simp
  show ?case
  proof (cases "sym_lookup E st s = 0")
    case False
    then show ?thesis by (simp add: intern_hit tg)
  next
    case True
    with k have miss: "sym_id st (rb_str_hash E s) = None" by (simp add: lookup_zero)
    show ?thesis
    proof (cases "setter_shape s")
      case ns: False
      let ?t = "name_tag E s"
      note r = name_tag_range [of E s]
      from intern_miss_exact [OF True ns]
      have res: "rb_intern_str E s st = new_id E s ?t st" .
      from r have t: "0 \<le> ?t" "?t < 8" "?t \<noteq> 4" by simp_all
      have free: "id_str st (fst (new_id E s ?t st)) = None"
        by (rule register_fresh(4) [OF ok miss t room1])
      have f: "id_str (snd (new_id E s ?t st))
                 = (id_str st)(fst (new_id E s ?t st)
                      \<mapsto> \<lparr>str = s, sid = fst (new_id E s ?t st)\<rparr>)"
        by (simp add: new_id_as_register id_register_result)
      have tag: "fst (new_id E s ?t st) AND ID_SCOPE_MASK = ?t"
        using t by (intro scope_new_id)
      have "tags_ok E (snd (new_id E s ?t st))"
        by (rule tags_add [OF tg f free]) (simp add: ns tag)
      then show ?thesis by (simp add: res)
    next
      case sh: True
      then have sh2: "1 < length s" "last s = CHR ''=''" "hd s \<noteq> CHR ''$''" "hd s \<noteq> CHR ''@''"
        by (simp_all add: setter_shape_def)
      let ?b = "butlast s"
      let ?i0 = "fst (rb_intern_str E ?b st)"
      let ?st1 = "snd (rb_intern_str E ?b st)"
      from sh2 have lt: "length ?b < length s" by simp
      note sub = strip_chain_butlast [OF sh2(1,2)]
      have ncb: "inj_on (rb_str_hash E) (dyn_names st \<union> set (strip_chain ?b))"
        by (rule inj_on_subset [OF nc]) (use sub in auto)
      from sh2 room have roomb: "last_id st + int (length ?b) + 1 < 2 ^ 61" by simp
      note pb = plain_name_butlast [OF plain sh2(1,2)]
      from less.hyps [OF lt pb ncb roomb] have tg1: "tags_ok E ?st1" .
      from intern_step [OF ok pb ncb roomb]
      have ih: "table_ok E ?st1" "id_str ?st1 ?i0 = Some \<lparr>str = ?b, sid = ?i0\<rparr>"
        "first_dynamic \<le> ?i0" "grows E ?b st ?st1"
        by simp_all
      from intern_last_id [OF pos roomb, of E] sh2 room
      have room2: "last_id ?st1 + 1 < 2 ^ 61" by simp
      have miss1: "sym_id ?st1 (rb_str_hash E s) = None"
        by (rule base_keeps_miss [OF miss ih(4) sh2(1,2) nc])
      show ?thesis
      proof (cases "is_attrset_id E ?i0")
        case a: True
        have res: "rb_intern_str E s st = new_id E s ID_JUNK ?st1"
          by (rule intern_attr_junk [OF True sh2(3,4,1,2) a])
        have t: "0 \<le> ID_JUNK" "ID_JUNK < 8" "ID_JUNK \<noteq> 4" by (simp_all add: ID_JUNK_def)
        have free: "id_str ?st1 (fst (new_id E s ID_JUNK ?st1)) = None"
          by (rule register_fresh(4) [OF ih(1) miss1 t room2])
        have f: "id_str (snd (new_id E s ID_JUNK ?st1))
                 = (id_str ?st1)(fst (new_id E s ID_JUNK ?st1)
                      \<mapsto> \<lparr>str = s, sid = fst (new_id E s ID_JUNK ?st1)\<rparr>)"
          by (simp add: new_id_as_register id_register_result)
        have tag: "fst (new_id E s ID_JUNK ?st1) AND ID_SCOPE_MASK = ID_JUNK"
          using t by (intro scope_new_id)
        from a have "?i0 AND ID_SCOPE_MASK = ID_ATTRSET" by (simp add: is_attrset_id_def)
        with ih(2,3) have "\<exists>j b. id_str ?st1 j = Some b \<and> first_dynamic \<le> j
                        \<and> str b = butlast s \<and> j AND ID_SCOPE_MASK = ID_ATTRSET"
          by (intro exI [of _ ?i0] exI [of _ "\<lparr>str = ?b, sid = ?i0\<rparr>"]) simp
        with tag have "tags_ok E (snd (new_id E s ID_JUNK ?st1))"
          by (intro tags_add [OF tg1 f free]) (simp add: sh)
        then show ?thesis by (simp add: res)
      next
        case a: False
        have res: "rb_intern_str E s st = id_register E s (rb_id_attrset ?i0) ?st1"
          by (rule intern_attr_derive [OF True sh2(3,4,1,2) a])
        from ih(3) bd have "is_notop_id E ?i0" by (simp add: is_notop_id_def)
        with a have tag0: "?i0 AND ID_SCOPE_MASK \<noteq> ID_ATTRSET"
          by (simp add: is_attrset_id_def)
        from sh2 have "s \<noteq> []" by auto
        then have "butlast s @ [last s] = s" by (rule append_butlast_last_id)
        with sh2 have s: "str \<lparr>str = ?b, sid = ?i0\<rparr> @ ''='' = s"
          by simp
        from register_attr(4) [OF ih(1) _ ih(2,3) tag0] miss1
        have free: "id_str ?st1 (rb_id_attrset ?i0) = None" by (simp only: s)
        have f: "id_str (snd (id_register E s (rb_id_attrset ?i0) ?st1))
                 = (id_str ?st1)(rb_id_attrset ?i0 \<mapsto> \<lparr>str = s, sid = rb_id_attrset ?i0\<rparr>)"
          by (simp add: id_register_result)
        have "tags_ok E (snd (id_register E s (rb_id_attrset ?i0) ?st1))"
          by (rule tags_add [OF tg1 f free]) (simp add: sh scope_attrset)
        then show ?thesis by (simp add: res)
      qed
    qed
  qed
qed

lemma init_tags_ok:
  assumes "op_tbl_ok E"
  shows "tags_ok E (Init_PreSymbol E)"
proof -
  from assms have b: "tLAST_TOKEN E < first_dynamic" by (simp add: op_tbl_ok_def)
  from init_table_ok(2) [OF assms] b show ?thesis
    unfolding reserved_only_def tags_ok_def by force
qed

lemma example_tags:
  "name_tag E ''foo'' = ID_LOCAL" "name_tag E ''Foo'' = ID_CONST"
  "name_tag E ''@foo'' = ID_INSTANCE" "name_tag E ''@@foo'' = ID_CLASS"
  "name_tag E ''$foo'' = ID_GLOBAL"
proof -
  have il: "ident_loop E ''foo'' 0 = 3" "ident_loop E ''Foo'' 0 = 3"
    "ident_loop E ''@foo'' (Suc 0) = 4" "ident_loop E ''@@foo'' 2 = 5"
    by (simp_all add: ident_loop.simps ctype_defs)
  show "name_tag E ''foo'' = ID_LOCAL" "name_tag E ''Foo'' = ID_CONST"
    "name_tag E ''@foo'' = ID_INSTANCE" "name_tag E ''@@foo'' = ID_CLASS"
    "name_tag E ''$foo'' = ID_GLOBAL"
    by (simp_all add: name_tag_def scan_ident_def il ctype_defs)
qed

lemma setter_base:
  assumes ok: "table_ok E st" and tg: "tags_ok E st"
    and r: "id_str st i = Some \<lparr>str = b @ ''='', sid = i\<rparr>" "first_dynamic \<le> i"
      "i AND ID_SCOPE_MASK = ID_ATTRSET"
  shows "i = rb_id_attrset (sym_lookup E st b)"
    and "id_str st (sym_lookup E st b) = Some \<lparr>str = b, sid = sym_lookup E st b\<rparr>"
    and "first_dynamic \<le> sym_lookup E st b"
    and "sym_lookup E st b AND ID_SCOPE_MASK \<noteq> ID_ATTRSET"
proof -
  from ok have bd: "tLAST_TOKEN E < first_dynamic" and rc: "recs_ok E st" and se: "setters_ok st"
    by (simp_all add: table_ok_def)
  from se r obtain j c where j: "id_str st j = Some c" "j AND ID_SCOPE_MASK \<noteq> ID_ATTRSET"
    "rb_id_attrset j = i" "b @ ''='' = str c @ ''=''"
    unfolding setters_ok_def by force
  from j(4) have c: "str c = b" by simp
  from j(3) have d: "j div 8 = i div 8" by (simp add: rb_id_attrset_arith)
  from r(2) have "1001 \<le> i div 8" by (simp add: first_dynamic_eq)
  with d have j8: "1001 \<le> j div 8" by simp
  have "8 * (j div 8) + j mod 8 = j" by (rule mult_div_mod_eq)
  moreover have "0 \<le> j mod 8" by simp
  ultimately have dyn: "first_dynamic \<le> j"
    using j8 by (simp add: first_dynamic_eq)
  from rc j(1) have "0 < j \<and> (j \<le> tLAST_TOKEN E
                 \<or> first_dynamic \<le> j \<and> sid c = j
                    \<and> j < push_bit ID_SCOPE_SHIFT (last_id st + 1)
                    \<and> sym_id st (rb_str_hash E (str c)) = Some j)"
    unfolding recs_ok_def by blast
  with dyn bd have e: "sid c = j" "sym_id st (rb_str_hash E (str c)) = Some j" by simp_all
  from e(2) c have l: "sym_lookup E st b = j" by (simp add: CFDictionaryGetValue_def)
  from e(1) c have rec: "c = \<lparr>str = b, sid = j\<rparr>" by (cases c) simp
  show "i = rb_id_attrset (sym_lookup E st b)" using j(3) l by simp
  show "id_str st (sym_lookup E st b) = Some \<lparr>str = b, sid = sym_lookup E st b\<rparr>"
    using j(1) rec l by simp
  show "first_dynamic \<le> sym_lookup E st b" using dyn l by simp
  show "sym_lookup E st b AND ID_SCOPE_MASK \<noteq> ID_ATTRSET" using j(2) l by simp
qed

lemma classify_new:
  assumes "sym_lookup E st s = 0" "\<not> setter_shape s"
  shows "fst (rb_intern_str E s st) AND ID_SCOPE_MASK = name_tag E s"
proof -
  note r = name_tag_range [of E s]
  from r have "fst (new_id E s (name_tag E s) st) AND ID_SCOPE_MASK = name_tag E s"
    by (intro scope_new_id) simp_all
  then show ?thesis by (simp add: intern_miss_exact [OF assms])
qed

lemma classify_found:
  assumes ok: "table_ok E st" and tg: "tags_ok E st"
    and hit: "sym_lookup E st s \<noteq> 0" and top: "tLAST_TOKEN E < sym_lookup E st s"
    and nc: "inj_on (rb_str_hash E) (dyn_names st \<union> {s})"
    and ns: "\<not> setter_shape s"
  shows "fst (rb_intern_str E s st) AND ID_SCOPE_MASK = name_tag E s"
proof -
  note f = found_dynamic [OF ok hit top nc]
  from tg f ns have "sym_lookup E st s AND ID_SCOPE_MASK = name_tag E s"
    unfolding tags_ok_def by force
  with hit show ?thesis by (simp add: intern_hit)
qed

lemma classify_plain:
  assumes ok: "table_ok E st" and tg: "tags_ok E st"
    and plain: "sym_lookup E st s = 0 \<or> tLAST_TOKEN E < sym_lookup E st s"
    and nc: "inj_on (rb_str_hash E) (dyn_names st \<union> {s})"
    and ns: "\<not> setter_shape s"
  shows "fst (rb_intern_str E s st) AND ID_SCOPE_MASK = name_tag E s"
proof (cases "sym_lookup E st s = 0")
  case True
  then show ?thesis using ns by (rule classify_new)
next
  case False
  with plain have "tLAST_TOKEN E < sym_lookup E st s" by simp
  with ok tg False show ?thesis using nc ns by (rule classify_found)
qed

lemma classify_setter:
  assumes ok: "table_ok E st" and tg: "tags_ok E st"
    and plain: "sym_lookup E st (b @ ''='') = 0 \<or> tLAST_TOKEN E < sym_lookup E st (b @ ''='')"
      "sym_lookup E st b = 0 \<or> tLAST_TOKEN E < sym_lookup E st b"
    and nc: "inj_on (rb_str_hash E) (dyn_names st \<union> {b, b @ ''=''})"
    and b: "b \<noteq> []" "hd b \<noteq> CHR ''$''" "hd b \<noteq> CHR ''@''" "\<not> setter_shape b"
      "name_tag E b \<noteq> ID_ATTRSET"
  shows "fst (rb_intern_str E (b @ ''='') st) AND ID_SCOPE_MASK = ID_ATTRSET"
    and "fst (rb_intern_str E (b @ ''='') st) = rb_id_attrset (fst (rb_intern_str E b st))"
proof -
  let ?s = "b @ ''=''"
  from b have sh: "setter_shape ?s" by (simp add: setter_shape_def)
  from b have sh2: "1 < length ?s" "last ?s = CHR ''=''" "hd ?s \<noteq> CHR ''$''" "hd ?s \<noteq> CHR ''@''"
    by simp_all
  have ncb: "inj_on (rb_str_hash E) (dyn_names st \<union> {b})"
    by (rule inj_on_subset [OF nc]) auto
  have ncs: "inj_on (rb_str_hash E) (dyn_names st \<union> {?s})"
    by (rule inj_on_subset [OF nc]) auto
  have tb: "fst (rb_intern_str E b st) AND ID_SCOPE_MASK = name_tag E b"
    by (rule classify_plain [OF ok tg plain(2) ncb b(4)])
  with b(5) have nab: "\<not> is_attrset_id E (fst (rb_intern_str E b st))"
    by (simp add: is_attrset_id_def)
  have "fst (rb_intern_str E ?s st) AND ID_SCOPE_MASK = ID_ATTRSET
        \<and> fst (rb_intern_str E ?s st) = rb_id_attrset (fst (rb_intern_str E b st))"
  proof (cases "sym_lookup E st ?s = 0")
    case True
    have "rb_intern_str E ?s st
            = id_register E ?s (rb_id_attrset (fst (rb_intern_str E (butlast ?s) st)))
                (snd (rb_intern_str E (butlast ?s) st))"
      using nab by (intro intern_attr_derive [OF True sh2(3,4,1,2)]) simp
    then have "fst (rb_intern_str E ?s st) = rb_id_attrset (fst (rb_intern_str E b st))"
      by (simp add: fst_id_register)
    then show ?thesis by (simp add: scope_attrset)
  next
    case False
    let ?i = "sym_lookup E st ?s"
    from False plain(1) have top: "tLAST_TOKEN E < ?i" by simp
    note f = found_dynamic [OF ok False top ncs]
    from tg f sh have alt: "?i AND ID_SCOPE_MASK = ID_ATTRSET
              \<or> (?i AND ID_SCOPE_MASK = ID_JUNK
                  \<and> (\<exists>j c. id_str st j = Some c \<and> first_dynamic \<le> j
                        \<and> str c = butlast ?s \<and> j AND ID_SCOPE_MASK = ID_ATTRSET))"
      unfolding tags_ok_def by force
    have nojunk: False if "id_str st j = Some c" "first_dynamic \<le> j" "str c = butlast ?s"
      "j AND ID_SCOPE_MASK = ID_ATTRSET" for j c
    proof -
      from that(3) have "str c = b" by simp
      with tg that(1,2) b(4) have "j AND ID_SCOPE_MASK = name_tag E b"
        unfolding tags_ok_def by force
      with that(4) b(5) show False by simp
    qed
    from alt nojunk have tag: "?i AND ID_SCOPE_MASK = ID_ATTRSET" by blast
    note sb = setter_base [OF ok tg f tag]
    from sb(3) have "sym_lookup E st b \<noteq> 0" by (simp add: first_dynamic_eq)
    then have "fst (rb_intern_str E b st) = sym_lookup E st b" by (simp add: intern_hit)
    with sb(1) tag False show ?thesis by (simp add: intern_hit)
  qed
  then show "fst (rb_intern_str E ?s st) AND ID_SCOPE_MASK = ID_ATTRSET"
    and "fst (rb_intern_str E ?s st) = rb_id_attrset (fst (rb_intern_str E b st))"
    by blast+
qed

lemma classify_consistent:
  assumes ok: "table_ok E st" and tg: "tags_ok E st"
    and plain: "\<forall>n \<in> {''foo'', ''Foo'', ''@foo'', ''@@foo'', ''$foo'', ''foo=''}. plain_name E st n"
    and nc: "inj_on (rb_str_hash E)
               (dyn_names st \<union> {''foo'', ''Foo'', ''@foo'', ''@@foo'', ''$foo'', ''foo=''})"
  shows "fst (rb_intern_str E ''foo'' st) AND ID_SCOPE_MASK = ID_LOCAL
       \<and> fst (rb_intern_str E ''Foo'' st) AND ID_SCOPE_MASK = ID_CONST
       \<and> fst (rb_intern_str E ''@foo'' st) AND ID_SCOPE_MASK = ID_INSTANCE
       \<and> fst (rb_intern_str E ''@@foo'' st) AND ID_SCOPE_MASK = ID_CLASS
       \<and> fst (rb_intern_str E ''$foo'' st) AND ID_SCOPE_MASK = ID_GLOBAL
       \<and> fst (rb_intern_str E ''foo='' st) AND ID_SCOPE_MASK = ID_ATTRSET
       \<and> fst (rb_intern_str E ''foo='' st) = rb_id_attrset (fst (rb_intern_str E ''foo'' st))"
proof -
  have ns: "\<not> setter_shape ''foo''" "\<not> setter_shape ''Foo''" "\<not> setter_shape ''@foo''"
    "\<not> setter_shape ''@@foo''" "\<not> setter_shape ''$foo''"
    by (simp_all add: setter_shape_def)
  have self: "sym_lookup E st n = 0 \<or> tLAST_TOKEN E < sym_lookup E st n"
    if "n \<in> {''foo'', ''Foo'', ''@foo'', ''@@foo'', ''$foo'', ''foo=''}" for n
    using plain that by (intro plain_name_self) blast
  have one: "fst (rb_intern_str E n st) AND ID_SCOPE_MASK = name_tag E n"
    if "n \<in> {''foo'', ''Foo'', ''@foo'', ''@@foo'', ''$foo''}" for n
  proof -
    from that have p: "sym_lookup E st n = 0 \<or> tLAST_TOKEN E < sym_lookup E st n"
      by (intro self) auto
    have c: "inj_on (rb_str_hash E) (dyn_names st \<union> {n})"
      by (rule inj_on_subset [OF nc]) (use that in auto)
    from that ns have "\<not> setter_shape n" by auto
    with ok tg p c show ?thesis by (rule classify_plain)
  qed
  have p: "sym_lookup E st (''foo'' @ ''='') = 0 \<or> tLAST_TOKEN E < sym_lookup E st (''foo'' @ ''='')"
    "sym_lookup E st ''foo'' = 0 \<or> tLAST_TOKEN E < sym_lookup E st ''foo''"
    using self [of "''foo=''"] self [of "''foo''"] by simp_all
  have c: "inj_on (rb_str_hash E) (dyn_names st \<union> {''foo'', ''foo'' @ ''=''})"
    by (rule inj_on_subset [OF nc]) auto
  have b: "''foo'' \<noteq> []" "hd ''foo'' \<noteq> CHR ''$''" "hd ''foo'' \<noteq> CHR ''@''"
    "\<not> setter_shape ''foo''" "name_tag E ''foo'' \<noteq> ID_ATTRSET"
    by (simp_all add: ns example_tags) (simp add: scope_defs)
  note s = classify_setter [OF ok tg p c b]
  from one [of "''foo''"] one [of "''Foo''"] one [of "''@foo''"] one [of "''@@foo''"]
    one [of "''$foo''"] s
  show ?thesis by (simp add: example_tags)
qed

text \<open>
  C4, as the code has it. The code classifies a name when it interns it, and a name that
  is in the table already keeps the ID it was given. So a name that is not yet in the
  table gets the tag of its spelling, in every table: \<open>foo\<close> is local, \<open>Foo\<close> a constant,
  \<open>@foo\<close> an instance variable, \<open>@@foo\<close> a class variable, \<open>$foo\<close> a global, and
  \<open>foo=\<close> an attribute setter with the ID of \<open>foo\<close> under the setter tag, provided that the
  ID found or made for \<open>foo\<close> is not itself a setter ID (it is not when \<open>foo\<close> is new or
  is found under a local ID). And in a consistent table, for names that are not found
  under operator tokens, and barring hash collisions among the six names and the dynamic
  names of the table, the six names get these tags whether or not they were interned
  before. (\<open>init_tags_ok\<close> and \<open>intern_tags\<close>: the table is consistent in this sense at
  start-up and stays so while the counter has room.)
\<close>

theorem classify_examples:
  "(sym_lookup E st ''foo'' = 0 \<longrightarrow>
      fst (rb_intern_str E ''foo'' st) AND ID_SCOPE_MASK = ID_LOCAL)
   \<and> (sym_lookup E st ''Foo'' = 0 \<longrightarrow>
      fst (rb_intern_str E ''Foo'' st) AND ID_SCOPE_MASK = ID_CONST)
   \<and> (sym_lookup E st ''@foo'' = 0 \<longrightarrow>
      fst (rb_intern_str E ''@foo'' st) AND ID_SCOPE_MASK = ID_INSTANCE)
   \<and> (sym_lookup E st ''@@foo'' = 0 \<longrightarrow>
      fst (rb_intern_str E ''@@foo'' st) AND ID_SCOPE_MASK = ID_CLASS)
   \<and> (sym_lookup E st ''$foo'' = 0 \<longrightarrow>
      fst (rb_intern_str E ''$foo'' st) AND ID_SCOPE_MASK = ID_GLOBAL)
   \<and> (sym_lookup E st ''foo='' = 0 \<and> \<not> is_attrset_id E (fst (rb_intern_str E ''foo'' st)) \<longrightarrow>
      fst (rb_intern_str E ''foo='' st) AND ID_SCOPE_MASK = ID_ATTRSET
      \<and> fst (rb_intern_str E ''foo='' st) = rb_id_attrset (fst (rb_intern_str E ''foo'' st)))
   \<and> (table_ok E st \<and> tags_ok E st
       \<and> (\<forall>n \<in> {''foo'', ''Foo'', ''@foo'', ''@@foo'', ''$foo'', ''foo=''}. plain_name E st n)
       \<and> inj_on (rb_str_hash E)
             (dyn_names st \<union> {''foo'', ''Foo'', ''@foo'', ''@@foo'', ''$foo'', ''foo=''}) \<longrightarrow>
         fst (rb_intern_str E ''foo'' st) AND ID_SCOPE_MASK = ID_LOCAL
         \<and> fst (rb_intern_str E ''Foo'' st) AND ID_SCOPE_MASK = ID_CONST
         \<and> fst (rb_intern_str E ''@foo'' st) AND ID_SCOPE_MASK = ID_INSTANCE
         \<and> fst (rb_intern_str E ''@@foo'' st) AND ID_SCOPE_MASK = ID_CLASS
         \<and> fst (rb_intern_str E ''$foo'' st) AND ID_SCOPE_MASK = ID_GLOBAL
         \<and> fst (rb_intern_str E ''foo='' st) AND ID_SCOPE_MASK = ID_ATTRSET
         \<and> fst (rb_intern_str E ''foo='' st) = rb_id_attrset (fst (rb_intern_str E ''foo'' st)))"
proof -
  have ns: "\<not> setter_shape ''foo''" "\<not> setter_shape ''Foo''" "\<not> setter_shape ''@foo''"
    "\<not> setter_shape ''@@foo''" "\<not> setter_shape ''$foo''"
    by (simp_all add: setter_shape_def)
  have 1: "sym_lookup E st ''foo'' = 0 \<longrightarrow>
      fst (rb_intern_str E ''foo'' st) AND ID_SCOPE_MASK = ID_LOCAL"
    using classify_new [OF _ ns(1), where E = E and st = st] by (simp add: example_tags)
  have 2: "sym_lookup E st ''Foo'' = 0 \<longrightarrow>
      fst (rb_intern_str E ''Foo'' st) AND ID_SCOPE_MASK = ID_CONST"
    using classify_new [OF _ ns(2), where E = E and st = st] by (simp add: example_tags)
  have 3: "sym_lookup E st ''@foo'' = 0 \<longrightarrow>
      fst (rb_intern_str E ''@foo'' st) AND ID_SCOPE_MASK = ID_INSTANCE"
    using classify_new [OF _ ns(3), where E = E and st = st] by (simp add: example_tags)
  have 4: "sym_lookup E st ''@@foo'' = 0 \<longrightarrow>
      fst (rb_intern_str E ''@@foo'' st) AND ID_SCOPE_MASK = ID_CLASS"
    using classify_new [OF _ ns(4), where E = E and st = st] by (simp add: example_tags)
  have 5: "sym_lookup E st ''$foo'' = 0 \<longrightarrow>
      fst (rb_intern_str E ''$foo'' st) AND ID_SCOPE_MASK = ID_GLOBAL"
    using classify_new [OF _ ns(5), where E = E and st = st] by (simp add: example_tags)
  have 6: "sym_lookup E st ''foo='' = 0 \<and> \<not> is_attrset_id E (fst (rb_intern_str E ''foo'' st)) \<longrightarrow>
      fst (rb_intern_str E ''foo='' st) AND ID_SCOPE_MASK = ID_ATTRSET
      \<and> fst (rb_intern_str E ''foo='' st) = rb_id_attrset (fst (rb_intern_str E ''foo'' st))"
  proof
    assume a: "sym_lookup E st ''foo='' = 0 \<and> \<not> is_attrset_id E (fst (rb_intern_str E ''foo'' st))"
    have "rb_intern_str E ''foo='' st =
            id_register E ''foo='' (rb_id_attrset (fst (rb_intern_str E (butlast ''foo='') st)))
              (snd (rb_intern_str E (butlast ''foo='') st))"
      using a by (intro intern_attr_derive) simp_all
    then have e: "fst (rb_intern_str E ''foo='' st)
                    = rb_id_attrset (fst (rb_intern_str E ''foo'' st))"
      by (simp add: fst_id_register)
    then show "fst (rb_intern_str E ''foo='' st) AND ID_SCOPE_MASK = ID_ATTRSET
      \<and> fst (rb_intern_str E ''foo='' st) = rb_id_attrset (fst (rb_intern_str E ''foo'' st))"
      by (simp add: scope_attrset)
  qed
  have 7: "table_ok E st \<and> tags_ok E st
       \<and> (\<forall>n \<in> {''foo'', ''Foo'', ''@foo'', ''@@foo'', ''$foo'', ''foo=''}. plain_name E st n)
       \<and> inj_on (rb_str_hash E)
             (dyn_names st \<union> {''foo'', ''Foo'', ''@foo'', ''@@foo'', ''$foo'', ''foo=''}) \<longrightarrow>
         fst (rb_intern_str E ''foo'' st) AND ID_SCOPE_MASK = ID_LOCAL
         \<and> fst (rb_intern_str E ''Foo'' st) AND ID_SCOPE_MASK = ID_CONST
         \<and> fst (rb_intern_str E ''@foo'' st) AND ID_SCOPE_MASK = ID_INSTANCE
         \<and> fst (rb_intern_str E ''@@foo'' st) AND ID_SCOPE_MASK = ID_CLASS
         \<and> fst (rb_intern_str E ''$foo'' st) AND ID_SCOPE_MASK = ID_GLOBAL
         \<and> fst (rb_intern_str E ''foo='' st) AND ID_SCOPE_MASK = ID_ATTRSET
         \<and> fst (rb_intern_str E ''foo='' st) = rb_id_attrset (fst (rb_intern_str E ''foo'' st))"
    using classify_consistent [where E = E and st = st] by blast
  from 1 2 3 4 5 6 7 show ?thesis by (intro conjI)
qed

theorem classify_examples_witness:
  "sym_lookup sample_env (Init_PreSymbol sample_env) ''foo'' = 0
   \<and> sym_lookup sample_env (Init_PreSymbol sample_env) ''Foo'' = 0
   \<and> sym_lookup sample_env (Init_PreSymbol sample_env) ''@foo'' = 0
   \<and> sym_lookup sample_env (Init_PreSymbol sample_env) ''@@foo'' = 0
   \<and> sym_lookup sample_env (Init_PreSymbol sample_env) ''$foo'' = 0
   \<and> sym_lookup sample_env (Init_PreSymbol sample_env) ''foo='' = 0
   \<and> \<not> is_attrset_id sample_env (fst (rb_intern_str sample_env ''foo'' (Init_PreSymbol sample_env)))
   \<and> fst (rb_intern_str sample_env ''foo'' (Init_PreSymbol sample_env)) AND ID_SCOPE_MASK = ID_LOCAL
   \<and> fst (rb_intern_str sample_env ''Foo'' (Init_PreSymbol sample_env)) AND ID_SCOPE_MASK = ID_CONST
   \<and> fst (rb_intern_str sample_env ''@foo'' (Init_PreSymbol sample_env)) AND ID_SCOPE_MASK
       = ID_INSTANCE
   \<and> fst (rb_intern_str sample_env ''@@foo'' (Init_PreSymbol sample_env)) AND ID_SCOPE_MASK
       = ID_CLASS
   \<and> fst (rb_intern_str sample_env ''$foo'' (Init_PreSymbol sample_env)) AND ID_SCOPE_MASK
       = ID_GLOBAL
   \<and> fst (rb_intern_str sample_env ''foo='' (Init_PreSymbol sample_env)) AND ID_SCOPE_MASK
       = ID_ATTRSET
   \<and> fst (rb_intern_str sample_env ''foo='' (Init_PreSymbol sample_env)) = rb_id_attrset 8008
   \<and> table_ok sample_env (snd (rb_intern_str sample_env ''foo'' (Init_PreSymbol sample_env)))
   \<and> tags_ok sample_env (snd (rb_intern_str sample_env ''foo'' (Init_PreSymbol sample_env)))
   \<and> plain_name sample_env
        (snd (rb_intern_str sample_env ''foo'' (Init_PreSymbol sample_env))) ''foo''
   \<and> plain_name sample_env
        (snd (rb_intern_str sample_env ''foo'' (Init_PreSymbol sample_env))) ''Foo''
   \<and> plain_name sample_env
        (snd (rb_intern_str sample_env ''foo'' (Init_PreSymbol sample_env))) ''@foo''
   \<and> plain_name sample_env
        (snd (rb_intern_str sample_env ''foo'' (Init_PreSymbol sample_env))) ''@@foo''
   \<and> plain_name sample_env
        (snd (rb_intern_str sample_env ''foo'' (Init_PreSymbol sample_env))) ''$foo''
   \<and> plain_name sample_env
        (snd (rb_intern_str sample_env ''foo'' (Init_PreSymbol sample_env))) ''foo=''
   \<and> inj_on (rb_str_hash sample_env)
        (dyn_names (snd (rb_intern_str sample_env ''foo'' (Init_PreSymbol sample_env)))
           \<union> {''foo'', ''Foo'', ''@foo'', ''@@foo'', ''$foo'', ''foo=''})
   \<and> sym_lookup sample_env
        (snd (rb_intern_str sample_env ''foo'' (Init_PreSymbol sample_env))) ''foo'' = 8008
   \<and> fst (rb_intern_str sample_env ''foo''
            (snd (rb_intern_str sample_env ''foo'' (Init_PreSymbol sample_env))))
         AND ID_SCOPE_MASK = ID_LOCAL
   \<and> fst (rb_intern_str sample_env ''Foo''
            (snd (rb_intern_str sample_env ''foo'' (Init_PreSymbol sample_env))))
         AND ID_SCOPE_MASK = ID_CONST
   \<and> fst (rb_intern_str sample_env ''@foo''
            (snd (rb_intern_str sample_env ''foo'' (Init_PreSymbol sample_env))))
         AND ID_SCOPE_MASK = ID_INSTANCE
   \<and> fst (rb_intern_str sample_env ''@@foo''
            (snd (rb_intern_str sample_env ''foo'' (Init_PreSymbol sample_env))))
         AND ID_SCOPE_MASK = ID_CLASS
   \<and> fst (rb_intern_str sample_env ''$foo''
            (snd (rb_intern_str sample_env ''foo'' (Init_PreSymbol sample_env))))
         AND ID_SCOPE_MASK = ID_GLOBAL
   \<and> fst (rb_intern_str sample_env ''foo=''
            (snd (rb_intern_str sample_env ''foo'' (Init_PreSymbol sample_env))))
         AND ID_SCOPE_MASK = ID_ATTRSET
   \<and> fst (rb_intern_str sample_env ''foo=''
            (snd (rb_intern_str sample_env ''foo'' (Init_PreSymbol sample_env))))
       = rb_id_attrset 8008"
proof -
  let ?E = sample_env
  let ?st0 = "Init_PreSymbol sample_env"
  let ?st1 = "snd (rb_intern_str ?E ''foo'' ?st0)"
  have m: "sym_lookup ?E ?st0 ''foo'' = 0"
    by (simp add: init_sample sample_hash radix_hash_def CFDictionaryGetValue_def)
  have ok0: "table_ok ?E ?st0" by (rule init_table_ok [OF sample_tbl_ok])
  have tg0: "tags_ok ?E ?st0" by (rule init_tags_ok [OF sample_tbl_ok])
  have sc: "strip_chain ''foo'' = [''foo'']" "strip_chain ''Foo'' = [''Foo'']"
    "strip_chain ''@foo'' = [''@foo'']" "strip_chain ''@@foo'' = [''@@foo'']"
    "strip_chain ''$foo'' = [''$foo'']" "strip_chain ''foo='' = [''foo='', ''foo'']"
    by (simp_all add: strip_chain.simps)
  have p0: "plain_name ?E ?st0 ''foo''"
    by (simp add: plain_name_def sc m)
  have d0: "dyn_names ?st0 = {}"
    by (rule reserved_only_no_dyn_names [OF init_table_ok(2) [OF sample_tbl_ok]])
      (simp add: sample_env_def first_dynamic_eq)
  then have nc0: "inj_on (rb_str_hash ?E) (dyn_names ?st0 \<union> set (strip_chain ''foo''))"
    by (simp add: sc)
  have r0: "last_id ?st0 + int (length ''foo'') + 1 < 2 ^ 61"
    by (simp add: init_last_id)
  from intern_step [OF ok0 p0 nc0 r0]
  have ok: "table_ok ?E ?st1" and g: "grows ?E ''foo'' ?st0 ?st1" by simp_all
  have tg: "tags_ok ?E ?st1" by (rule intern_tags [OF ok0 tg0 p0 nc0 r0])
  have l: "sym_lookup ?E ?st1 ''foo'' = 8008" "sym_lookup ?E ?st1 ''Foo'' = 0"
    "sym_lookup ?E ?st1 ''@foo'' = 0" "sym_lookup ?E ?st1 ''@@foo'' = 0"
    "sym_lookup ?E ?st1 ''$foo'' = 0" "sym_lookup ?E ?st1 ''foo='' = 0"
    by (simp_all add: sample_foo sample_hash CFDictionaryGetValue_def)
      (simp_all add: init_sample radix_hash_def)
  have p: "plain_name ?E ?st1 ''foo''" "plain_name ?E ?st1 ''Foo''"
    "plain_name ?E ?st1 ''@foo''" "plain_name ?E ?st1 ''@@foo''"
    "plain_name ?E ?st1 ''$foo''" "plain_name ?E ?st1 ''foo=''"
    by (simp_all add: plain_name_def sc l) (simp_all add: sample_env_def)
  from dyn_names_grows [OF g] d0 have "dyn_names ?st1 \<subseteq> {''foo''}"
    by (simp add: sc)
  then have sub: "dyn_names ?st1 \<union> {''foo'', ''Foo'', ''@foo'', ''@@foo'', ''$foo'', ''foo=''}
      \<subseteq> {''foo'', ''Foo'', ''@foo'', ''@@foo'', ''$foo'', ''foo=''}"
    by auto
  have "inj_on radix_hash {''foo'', ''Foo'', ''@foo'', ''@@foo'', ''$foo'', ''foo=''}"
    by (simp add: radix_hash_def)
  then have nc: "inj_on (rb_str_hash ?E)
      (dyn_names ?st1 \<union> {''foo'', ''Foo'', ''@foo'', ''@@foo'', ''$foo'', ''foo=''})"
    unfolding sample_hash by (rule inj_on_subset [OF _ sub])
  from p have pa: "\<forall>n \<in> {''foo'', ''Foo'', ''@foo'', ''@@foo'', ''$foo'', ''foo=''}.
      plain_name ?E ?st1 n" by simp
  have h: "fst (rb_intern_str ?E ''foo'' ?st1) = 8008"
    using intern_hit [of ?st1 ?E "''foo''"] by (simp add: l)
  have m0: "sym_lookup ?E ?st0 ''foo'' = 0" "sym_lookup ?E ?st0 ''Foo'' = 0"
    "sym_lookup ?E ?st0 ''@foo'' = 0" "sym_lookup ?E ?st0 ''@@foo'' = 0"
    "sym_lookup ?E ?st0 ''$foo'' = 0" "sym_lookup ?E ?st0 ''foo='' = 0"
    by (simp_all add: init_sample sample_hash radix_hash_def CFDictionaryGetValue_def)
  have f0: "fst (rb_intern_str ?E ''foo'' ?st0) = 8008" by (simp add: sample_foo)
  have na0: "\<not> is_attrset_id ?E (fst (rb_intern_str ?E ''foo'' ?st0))"
    by (simp add: f0 is_attrset_id_def scope_mod ID_ATTRSET_def)
  note t0 = classify_examples [where E = ?E and st = ?st0]
  from t0 m0 na0
  have a: "fst (rb_intern_str ?E ''foo'' ?st0) AND ID_SCOPE_MASK = ID_LOCAL"
    "fst (rb_intern_str ?E ''Foo'' ?st0) AND ID_SCOPE_MASK = ID_CONST"
    "fst (rb_intern_str ?E ''@foo'' ?st0) AND ID_SCOPE_MASK = ID_INSTANCE"
    "fst (rb_intern_str ?E ''@@foo'' ?st0) AND ID_SCOPE_MASK = ID_CLASS"
    "fst (rb_intern_str ?E ''$foo'' ?st0) AND ID_SCOPE_MASK = ID_GLOBAL"
    "fst (rb_intern_str ?E ''foo='' ?st0) AND ID_SCOPE_MASK = ID_ATTRSET"
    "fst (rb_intern_str ?E ''foo='' ?st0) = rb_id_attrset (fst (rb_intern_str ?E ''foo'' ?st0))"
    by blast+
  from a(7) have a7: "fst (rb_intern_str ?E ''foo='' ?st0) = rb_id_attrset 8008"
    by (simp only: f0)
  from classify_examples [where E = ?E and st = ?st1] ok tg pa nc
  have c: "fst (rb_intern_str ?E ''foo'' ?st1) AND ID_SCOPE_MASK = ID_LOCAL"
    "fst (rb_intern_str ?E ''Foo'' ?st1) AND ID_SCOPE_MASK = ID_CONST"
    "fst (rb_intern_str ?E ''@foo'' ?st1) AND ID_SCOPE_MASK = ID_INSTANCE"
    "fst (rb_intern_str ?E ''@@foo'' ?st1) AND ID_SCOPE_MASK = ID_CLASS"
    "fst (rb_intern_str ?E ''$foo'' ?st1) AND ID_SCOPE_MASK = ID_GLOBAL"
    "fst (rb_intern_str ?E ''foo='' ?st1) AND ID_SCOPE_MASK = ID_ATTRSET"
    "fst (rb_intern_str ?E ''foo='' ?st1) = rb_id_attrset (fst (rb_intern_str ?E ''foo'' ?st1))"
    by blast+
  from c(7) have c7: "fst (rb_intern_str ?E ''foo='' ?st1) = rb_id_attrset 8008"
    by (simp only: h)
  from m0 na0 a(1-6) a7 ok tg p nc l(1) c(1-6) c7 show ?thesis by (intro conjI)
qed

text \<open>
  C4 as the specification states it, for every table, fails where names share a hash:
  with the length as hash, once \<open>ab=\<close> is interned the name \<open>foo\<close> is found under the
  setter ID of \<open>ab=\<close>, and \<open>foo=\<close>, whose prefix is found under a setter ID, is
  scanned as a whole and becomes junk.
\<close>

theorem classify_examples_counterexample:
  "fst (rb_intern_str colliding_env ''foo''
          (snd (rb_intern_str colliding_env ''ab='' (Init_PreSymbol colliding_env))))
     AND ID_SCOPE_MASK = ID_ATTRSET
   \<and> fst (rb_intern_str colliding_env ''foo=''
          (snd (rb_intern_str colliding_env ''ab='' (Init_PreSymbol colliding_env))))
     AND ID_SCOPE_MASK = ID_JUNK"
proof -
  let ?E = colliding_env
  let ?st0 = "Init_PreSymbol colliding_env"
  have m: "sym_lookup ?E ?st0 ''ab'' = 0" "sym_lookup ?E ?st0 ''ab='' = 0"
    by (simp_all add: init_colliding colliding_hash CFDictionaryGetValue_def)
  have il: "ident_loop ?E ''ab'' 0 = 2"
    by (simp add: ident_loop.simps ctype_defs)
  have "rb_intern_str ?E ''ab'' ?st0 = new_id ?E ''ab'' ID_LOCAL ?st0"
    using m by (subst intern_plain) (simp_all add: scan_ident_def il ctype_defs)
  then have ab: "rb_intern_str ?E ''ab'' ?st0 =
     (8008, ?st0\<lparr>last_id := 1001, sym_id := (sym_id ?st0)(2 \<mapsto> 8008),
                 id_str := (id_str ?st0)(8008 \<mapsto> \<lparr>str = ''ab'', sid = 8008\<rparr>)\<rparr>)"
    by (simp add: new_id_result colliding_hash init_last_id)
      (simp add: init_colliding scope_defs numeral_2_eq_2)
  have na: "\<not> is_attrset_id ?E 8008"
    by (simp add: is_attrset_id_def scope_mod ID_ATTRSET_def)
  have "rb_intern_str ?E ''ab='' ?st0 =
          id_register ?E ''ab='' (rb_id_attrset (fst (rb_intern_str ?E (butlast ''ab='') ?st0)))
            (snd (rb_intern_str ?E (butlast ''ab='') ?st0))"
    using m na by (intro intern_attr_derive) (simp_all add: ab)
  then have abe: "rb_intern_str ?E ''ab='' ?st0 =
      (8012, ?st0\<lparr>last_id := 1001, sym_id := (sym_id ?st0)(2 \<mapsto> 8008, 3 \<mapsto> 8012),
                 id_str := (id_str ?st0)(8008 \<mapsto> \<lparr>str = ''ab'', sid = 8008\<rparr>,
                                          8012 \<mapsto> \<lparr>str = ''ab='', sid = 8012\<rparr>)\<rparr>)"
    by (simp add: ab id_register_result colliding_hash rb_id_attrset_arith numeral_3_eq_3)
  let ?st1 = "?st0\<lparr>last_id := 1001, sym_id := (sym_id ?st0)(2 \<mapsto> 8008, 3 \<mapsto> 8012),
                 id_str := (id_str ?st0)(8008 \<mapsto> \<lparr>str = ''ab'', sid = 8008\<rparr>,
                                          8012 \<mapsto> \<lparr>str = ''ab='', sid = 8012\<rparr>)\<rparr>"
  have l: "sym_lookup ?E ?st1 ''foo'' = 8012" "sym_lookup ?E ?st1 ''foo='' = 0"
    by (simp_all add: colliding_hash CFDictionaryGetValue_def init_colliding)
  from l(1) have "sym_lookup ?E ?st1 ''foo'' \<noteq> 0" by simp
  then have "rb_intern_str ?E ''foo'' ?st1 = (sym_lookup ?E ?st1 ''foo'', ?st1)"
    by (rule intern_hit)
  then have foo: "rb_intern_str ?E ''foo'' ?st1 = (8012, ?st1)"
    by (simp only: l(1))
  have a: "is_attrset_id ?E 8012"
    by (simp add: is_attrset_id_def is_notop_id_def scope_mod ID_ATTRSET_def colliding_env_def
        sample_env_def)
  have "rb_intern_str ?E ''foo='' ?st1
          = new_id ?E ''foo='' ID_JUNK (snd (rb_intern_str ?E (butlast ''foo='') ?st1))"
    using l(2) a by (intro intern_attr_junk) (simp_all add: foo)
  then have 2: "fst (rb_intern_str ?E ''foo='' ?st1) AND ID_SCOPE_MASK = ID_JUNK"
    by (simp add: scope_new_id_tags)
  have 1: "fst (rb_intern_str ?E ''foo'' ?st1) AND ID_SCOPE_MASK = ID_ATTRSET"
    by (simp add: foo scope_mod ID_ATTRSET_def)
  from 1 2 show ?thesis by (simp add: abe)
qed

section \<open>Callers that overlap\<close>

lemma intern_split:
  "rb_intern_str E s st =
     (if sym_lookup E st s \<noteq> 0 then (sym_lookup E st s, st) else intern_insert E s st)"
  by (subst rb_intern_str.simps) (simp add: intern_insert_def Let_def)

lemma run_append:
  "run_callers E (a @ b) c = run_callers E b (run_callers E a c)"
proof (induction a arbitrary: c)
  case Nil
  show ?case by simp
next
  case (Cons k a)
  obtain cs st where c: "c = (cs, st)" by (cases c)
  show ?case by (simp add: c Cons.IH split: prod.split)
qed

lemma run_call:
  assumes "k < length cs" "cs ! k = Start s"
  shows "run_callers E [k, k] (cs, st)
           = (cs[k := Done (fst (rb_intern_str E s st))], snd (rb_intern_str E s st))"
proof (cases "sym_lookup E st s = 0")
  case True
  with assms show ?thesis
    by (simp add: intern_split Let_def split: prod.split)
next
  case False
  with assms show ?thesis
    by (simp add: intern_split Let_def)
qed

lemma run_done:
  assumes "k < length cs" "cs ! k = Done i"
  shows "run_callers E [k, k] (cs, st) = (cs, st)"
proof -
  from assms(2) have "cs[k := Done i] = cs"
    using list_update_id [of cs k] by simp
  with assms show ?thesis by simp
qed

lemma one_by_one_snoc: "one_by_one (ks @ [k]) = one_by_one ks @ [k, k]"
  by (simp add: one_by_one_def)

lemma callers_any_order:
  assumes pos: "0 \<le> last_id st" and room: "last_id st + int (length s) + 1 < 2 ^ 61"
  shows "ks \<noteq> [] \<Longrightarrow> \<forall>k \<in> set ks. k < n \<Longrightarrow>
         run_callers E (one_by_one ks) (replicate n (Start s), st)
           = (map (\<lambda>j. if j \<in> set ks then Done (fst (rb_intern_str E s st)) else Start s) [0..<n],
              snd (rb_intern_str E s st))"
proof (induction ks rule: rev_induct)
  case Nil
  then show ?case by simp
next
  case (snoc k ks)
  let ?i = "fst (rb_intern_str E s st)"
  let ?st1 = "snd (rb_intern_str E s st)"
  from snoc.prems have kn: "k < n" by simp
  show ?case
  proof (cases "ks = []")
    case True
    have "run_callers E [k, k] (replicate n (Start s), st)
         = ((replicate n (Start s))[k := Done ?i], ?st1)"
      using kn by (intro run_call) simp_all
    moreover have "(replicate n (Start s))[k := Done ?i] ! j
         = map (\<lambda>j. if j \<in> set [k] then Done ?i else Start s) [0..<n] ! j" if "j < n" for j
      using that kn by (cases "j = k") simp_all
    then have "(replicate n (Start s))[k := Done ?i]
         = map (\<lambda>j. if j \<in> set [k] then Done ?i else Start s) [0..<n]"
      by (intro nth_equalityI) simp_all
    ultimately show ?thesis
      using True by (simp add: one_by_one_def)
  next
    case False
    let ?cs = "map (\<lambda>j. if j \<in> set ks then Done ?i else Start s) [0..<n]"
    from False snoc have ih: "run_callers E (one_by_one ks) (replicate n (Start s), st)
           = (?cs, ?st1)"
      by simp
    have len: "k < length ?cs" using kn by simp
    have "run_callers E [k, k] (?cs, ?st1)
            = (map (\<lambda>j. if j \<in> set (ks @ [k]) then Done ?i else Start s) [0..<n], ?st1)"
    proof (cases "k \<in> set ks")
      case True
      with kn have "?cs ! k = Done ?i" by simp
      with len have "run_callers E [k, k] (?cs, ?st1) = (?cs, ?st1)"
        by (rule run_done)
      moreover from True have "set (ks @ [k]) = set ks" by auto
      ultimately show ?thesis by (simp only:)
    next
      case nk: False
      with kn have "?cs ! k = Start s" by simp
      with len have "run_callers E [k, k] (?cs, ?st1)
            = (?cs[k := Done (fst (rb_intern_str E s ?st1))], snd (rb_intern_str E s ?st1))"
        by (rule run_call)
      also have "\<dots> = (?cs[k := Done ?i], ?st1)"
        by (simp only: intern_idempotent [OF pos room])
      finally have r: "run_callers E [k, k] (?cs, ?st1) = (?cs[k := Done ?i], ?st1)" .
      have "?cs[k := Done ?i] ! j
           = map (\<lambda>j. if j \<in> set (ks @ [k]) then Done ?i else Start s) [0..<n] ! j"
        if "j < n" for j
        using that kn by (cases "j = k") simp_all
      then have "?cs[k := Done ?i]
           = map (\<lambda>j. if j \<in> set (ks @ [k]) then Done ?i else Start s) [0..<n]"
        by (intro nth_equalityI) simp_all
      with r show ?thesis by (simp only:)
    qed
    then show ?thesis
      by (simp only: one_by_one_snoc run_append ih)
  qed
qed

lemma insert_foo:
  "intern_insert sample_env ''foo'' st = new_id sample_env ''foo'' ID_LOCAL st"
proof -
  have il: "ident_loop sample_env ''foo'' 0 = 3"
    by (simp add: ident_loop.simps ctype_defs)
  show ?thesis
    by (simp add: intern_insert_def Let_def scan_ident_def il ctype_defs)
qed

text \<open>
  C10, as the code has it. When the calls do not overlap, the callers agree: let \<open>n\<close>
  callers intern the same name, each call running from its lookup to its end before the
  next one starts, in any order and any number of times (\<open>ks\<close> lists whose turn it is and
  names every caller). While the counter has room, every caller returns the ID that
  \<open>rb_intern_str\<close> returns in the starting table, and the table at the end is the one
  that this first call left: the later calls have stored nothing.
\<close>

theorem callers_one_by_one:
  assumes pos: "0 \<le> last_id st" and room: "last_id st + int (length s) + 1 < 2 ^ 61"
    and n: "0 < n" and ks: "set ks = {..<n}"
  shows "run_callers E (one_by_one ks) (replicate n (Start s), st)
           = (replicate n (Done (fst (rb_intern_str E s st))), snd (rb_intern_str E s st))"
proof -
  have sub1: "set ks \<subseteq> {..<n}" by (rule equalityD1 [OF ks])
  have sub2: "{..<n} \<subseteq> set ks" by (rule equalityD2 [OF ks])
  from sub1 have b: "\<forall>k \<in> set ks. k < n" by auto
  from sub2 have c: "j \<in> set ks" if "j < n" for j using that by auto
  from n c have "0 \<in> set ks" by blast
  then have ne: "ks \<noteq> []" by auto
  from c have "map (\<lambda>j. if j \<in> set ks then Done (fst (rb_intern_str E s st)) else Start s) [0..<n]
          = replicate n (Done (fst (rb_intern_str E s st)))"
    by (intro nth_equalityI) simp_all
  with callers_any_order [OF pos room ne b, of E] show ?thesis by (simp only:)
qed

theorem callers_one_by_one_witness:
  "0 \<le> last_id (Init_PreSymbol sample_env)
   \<and> last_id (Init_PreSymbol sample_env) + int (length ''foo'') + 1 < 2 ^ 61
   \<and> (0::nat) < 3
   \<and> set [2, 0, 1] = {..<3::nat}
   \<and> run_callers sample_env (one_by_one [2, 0, 1])
        (replicate 3 (Start ''foo''), Init_PreSymbol sample_env)
       = (replicate 3 (Done 8008), snd (rb_intern_str sample_env ''foo'' (Init_PreSymbol sample_env)))"
proof -
  let ?st0 = "Init_PreSymbol sample_env"
  have l: "0 \<le> last_id ?st0" "last_id ?st0 + int (length ''foo'') + 1 < 2 ^ 61"
    by (simp_all add: init_last_id)
  have n: "(0::nat) < 3" by simp
  have ks: "set [2, 0, 1] = {..<3::nat}" by auto
  from callers_one_by_one [OF l n ks, of sample_env]
  have "run_callers sample_env (one_by_one [2, 0, 1]) (replicate 3 (Start ''foo''), ?st0)
       = (replicate 3 (Done (fst (rb_intern_str sample_env ''foo'' ?st0))),
          snd (rb_intern_str sample_env ''foo'' ?st0))" .
  then have r: "run_callers sample_env (one_by_one [2, 0, 1]) (replicate 3 (Start ''foo''), ?st0)
       = (replicate 3 (Done 8008), snd (rb_intern_str sample_env ''foo'' ?st0))"
    by (simp only: sample_foo fst_conv)
  from l n ks r show ?thesis by (intro conjI)
qed

text \<open>
  C10 as the specification states it, for calls that overlap, fails: nothing in symbol.c
  keeps a second caller from running between the lookup and the insertion of the first.
  Two callers intern \<open>foo\<close> in the starting table of the sample environment; the first
  looks \<open>foo\<close> up and finds nothing, the second runs its whole call and returns 8008, then
  the first goes on from its lookup, takes the next number and returns 8016. The callers
  hold different IDs and the table holds two records of \<open>foo\<close>.
\<close>

theorem callers_overlap_counterexample:
  "fst (run_callers sample_env [0, 1, 1, 0]
          ([Start ''foo'', Start ''foo''], Init_PreSymbol sample_env))
     = [Done 8016, Done 8008]
   \<and> id_str (snd (run_callers sample_env [0, 1, 1, 0]
                     ([Start ''foo'', Start ''foo''], Init_PreSymbol sample_env))) 8008
       = Some \<lparr>str = ''foo'', sid = 8008\<rparr>
   \<and> id_str (snd (run_callers sample_env [0, 1, 1, 0]
                     ([Start ''foo'', Start ''foo''], Init_PreSymbol sample_env))) 8016
       = Some \<lparr>str = ''foo'', sid = 8016\<rparr>"
proof -
  let ?E = sample_env
  let ?st0 = "Init_PreSymbol sample_env"
  let ?st1 = "?st0\<lparr>last_id := 1001, sym_id := (sym_id ?st0)(radix_hash ''foo'' \<mapsto> 8008),
                 id_str := (id_str ?st0)(8008 \<mapsto> \<lparr>str = ''foo'', sid = 8008\<rparr>)\<rparr>"
  let ?st2 = "?st1\<lparr>last_id := 1002, sym_id := (sym_id ?st1)(radix_hash ''foo'' \<mapsto> 8016),
                 id_str := (id_str ?st1)(8016 \<mapsto> \<lparr>str = ''foo'', sid = 8016\<rparr>)\<rparr>"
  have m: "sym_lookup ?E ?st0 ''foo'' = 0"
    by (simp add: init_sample sample_hash radix_hash_def CFDictionaryGetValue_def)
  have a: "caller_step ?E (Start ''foo'') ?st0 = (Missed ''foo'', ?st0)"
    by (simp add: m)
  have i1: "intern_insert ?E ''foo'' ?st0 = (8008, ?st1)"
    by (simp add: insert_foo new_id_result sample_hash init_last_id) (simp add: scope_defs)
  have i2: "intern_insert ?E ''foo'' ?st1 = (8016, ?st2)"
    by (simp add: insert_foo new_id_result sample_hash init_last_id) (simp add: scope_defs)
  have b: "caller_step ?E (Missed ''foo'') ?st0 = (Done 8008, ?st1)"
    by (simp add: i1)
  have c: "caller_step ?E (Missed ''foo'') ?st1 = (Done 8016, ?st2)"
    by (simp add: i2)
  have "run_callers ?E [0, 1, 1, 0] ([Start ''foo'', Start ''foo''], ?st0)
          = ([Done 8016, Done 8008], ?st2)"
    by (simp add: a b c del: caller_step.simps)
  then show ?thesis by simp
qed

end
